theory Spec2Isabelle
  imports Complex_Main "HOL-Library.Multiset" "HOL-Library.Product_Lexorder"
begin

section \<open>The Rossmann preprocessing notebook\<close>

text \<open>
  The notebook is a sequence of cells over pandas tables. A table is a list of rows in
  row order; a cell that rebinds or mutates a table is a function returning the new
  table. A missing value (NaN) of a numeric column is \<open>None\<close>. Timestamps are
  integers counting nanoseconds since 1970-01-01, as pandas stores them.
\<close>

datatype error = KeyError | ValueError | OverflowError

subsection \<open>Rows of the assembled tables\<close>

text \<open>
  The columns of the assembled training and test tables that the cells below read or
  write. The date is a timestamp; in cells 15 to 21 the timestamp \<open>NaT\<close> is a missing
  date. The sales amount is missing in the test rows, and the four derived counts of
  days, months and weeks are missing where pandas computes NaN. The three event flags are
  numbers, 0 for no event (\<open>StateHoliday\<close> is a truth value after cell 5: 0 or 1).
  The four since-columns are the integers cell 14 leaves, no value missing. A cell that
  assigns a column sets the field, whatever it held before.
\<close>

record row =
  Store :: int
  Date :: int
  Sales :: "int option"
  SchoolHoliday :: int
  StateHoliday :: int
  Promo :: int
  CompetitionOpenSinceYear :: int
  CompetitionOpenSinceMonth :: int
  Promo2SinceYear :: int
  Promo2SinceWeek :: int
  CompetitionOpenSince :: int
  CompetitionDaysOpen :: "int option"
  CompetitionMonthsOpen :: "int option"
  Promo2Since :: int
  Promo2Days :: "int option"
  Promo2Weeks :: "int option"

subsection \<open>Python slices and number conversion\<close>

text \<open>
  \<^verbatim>\<open>xs[i:]\<close> and \<^verbatim>\<open>xs[:i]\<close>: a negative bound counts from the end, and every
  bound is clipped to the length.
\<close>

definition slice_bound :: "int \<Rightarrow> nat \<Rightarrow> nat" where
  "slice_bound i n = (if i < 0 then nat (max 0 (int n + i)) else min (nat i) n)"

definition slice_from :: "int \<Rightarrow> 'a list \<Rightarrow> 'a list" where
  "slice_from i xs = drop (slice_bound i (length xs)) xs"

definition slice_to :: "int \<Rightarrow> 'a list \<Rightarrow> 'a list" where
  "slice_to i xs = take (slice_bound i (length xs)) xs"

text \<open>\<^verbatim>\<open>int(x)\<close> truncates towards zero.\<close>

definition py_int :: "rat \<Rightarrow> int" where
  "py_int q = (if 0 \<le> q then \<lfloor>q\<rfloor> else \<lceil>q\<rceil>)"

subsection \<open>Splitter (cells 27 and 28)\<close>

text \<open>
  \<^verbatim>\<open>VALID_FRAC = 0.25\<close>. The constant is a power of two, so the floating-point
  product \<^verbatim>\<open>VALID_FRAC*len(train_df)\<close> is exact for every table length below \<open>2^53\<close>
  and the rational product computes the same number.
\<close>

definition VALID_FRAC :: rat where
  "VALID_FRAC = 1 / 4"

text \<open>\<^verbatim>\<open>train_df = train_df[train_df.Sales != 0]\<close>; a missing amount differs from 0.\<close>

definition cell27 :: "row list \<Rightarrow> row list" where
  "cell27 train_df = filter (\<lambda>r. Sales r \<noteq> Some 0) train_df"

text \<open>
  \<^verbatim>\<open>
  train_df = train_df.sort_values(by='Date')
  num_valid = int(VALID_FRAC*len(train_df))
  valid_df = train_df[-num_valid:]
  train_df = train_df[:-num_valid]
  \<close>
  The result is the pair (training table, validation table). \<open>sort_key\<close> is a stable
  sort; pandas does not promise an order among equal dates, and nothing proved below
  depends on it.
\<close>

definition num_valid_of :: "row list \<Rightarrow> int" where
  "num_valid_of train_df = py_int (VALID_FRAC * of_nat (length train_df))"

definition cell28 :: "row list \<Rightarrow> row list \<times> row list" where
  "cell28 train_df0 =
     (let train_df = sort_key Date train_df0;
          num_valid = num_valid_of train_df;
          valid_df = slice_from (- num_valid) train_df;
          train_df = slice_to (- num_valid) train_df
      in (train_df, valid_df))"

text \<open>
  Cells 27 to 29 together: the three tables written to train.csv, valid.csv and
  test.csv.
\<close>

definition splitter :: "row list \<Rightarrow> row list \<Rightarrow> row list \<times> row list \<times> row list" where
  "splitter train_df test_df =
     (let (train_out, valid_out) = cell28 (cell27 train_df)
      in (train_out, valid_out, test_df))"

subsection \<open>Failing computations\<close>

text \<open>
  A pandas call that raises is a value \<open>Inl e\<close>; a raise aborts the notebook, so a
  sequence of calls stops at the first one. A column operation works on all rows;
  it raises when it raises on any row.
\<close>

definition bind_err :: "error + 'a \<Rightarrow> ('a \<Rightarrow> error + 'b) \<Rightarrow> error + 'b" where
  "bind_err x f = (case x of Inl e \<Rightarrow> Inl e | Inr v \<Rightarrow> f v)"

fun collect :: "(error + 'a) list \<Rightarrow> error + 'a list" where
  "collect [] = Inr []"
| "collect (x # xs) =
     (case x of
        Inl e \<Rightarrow> Inl e
      | Inr v \<Rightarrow> (case collect xs of Inl e \<Rightarrow> Inl e | Inr vs \<Rightarrow> Inr (v # vs)))"


subsection \<open>Calendar and timestamps\<close>

definition day_ns :: int where
  "day_ns = 86400 * 1000000000"

text \<open>Days from 1970-01-01 to a date of the proleptic Gregorian calendar.\<close>

definition days_from_civil :: "int \<Rightarrow> int \<Rightarrow> int \<Rightarrow> int" where
  "days_from_civil y m d =
     (let y' = (if m \<le> 2 then y - 1 else y);
          era = y' div 400;
          yoe = y' - era * 400;
          doy = (153 * (if 2 < m then m - 3 else m + 9) + 2) div 5 + d - 1;
          doe = yoe * 365 + yoe div 4 - yoe div 100 + doy
      in era * 146097 + doe - 719468)"



text \<open>
  A pandas timestamp is a 64-bit count of nanoseconds; the least 64-bit value stands
  for the missing timestamp (NaT). A date column holds NaT where the date is missing.
\<close>

definition NaT :: int where
  "NaT = - (2 ^ 63)"




text \<open>
  The difference of two timestamps on one row, a 64-bit count of nanoseconds, missing
  (\<open>None\<close>) when either timestamp is NaT or the difference is the NaT value. pandas
  raises OverflowError when the difference does not fit into 64 bits.
\<close>

definition sub_datetimes :: "int \<Rightarrow> int \<Rightarrow> error + int option" where
  "sub_datetimes a b =
     (if a = NaT \<or> b = NaT then Inr None
      else if a - b < NaT \<or> 2 ^ 63 \<le> a - b then Inl OverflowError
      else if a - b = NaT then Inr None
      else Inr (Some (a - b)))"


text \<open>Comparing a column with a number: a missing value compares false.\<close>

definition nan_less :: "int option \<Rightarrow> int \<Rightarrow> bool" where
  "nan_less v c = (case v of None \<Rightarrow> False | Some x \<Rightarrow> x < c)"

definition nan_greater :: "int option \<Rightarrow> int \<Rightarrow> bool" where
  "nan_greater v c = (case v of None \<Rightarrow> False | Some x \<Rightarrow> x > c)"

text \<open>\<^verbatim>\<open>column // c\<close>: a missing value stays missing.\<close>

definition floordiv :: "int option \<Rightarrow> int \<Rightarrow> int option" where
  "floordiv v c = map_option (\<lambda>x. x div c) v"



subsection \<open>Date-derived features (cells 15 to 19)\<close>


text \<open>
  \<^verbatim>\<open>
  df.loc[df.CompetitionDaysOpen<0, "CompetitionDaysOpen"] = 0
  df.loc[df.CompetitionOpenSinceYear<1990, "CompetitionDaysOpen"] = 0
  \<close>
\<close>

definition cell16 :: "row list \<Rightarrow> row list" where
  "cell16 df =
     (let df1 = map (\<lambda>r. if nan_less (CompetitionDaysOpen r) 0
                          then r\<lparr>CompetitionDaysOpen := Some 0\<rparr> else r) df
      in map (\<lambda>r. if CompetitionOpenSinceYear r < 1990
                   then r\<lparr>CompetitionDaysOpen := Some 0\<rparr> else r) df1)"

text \<open>
  \<^verbatim>\<open>
  df["CompetitionMonthsOpen"] = df["CompetitionDaysOpen"]//30
  df.loc[df.CompetitionMonthsOpen>24, "CompetitionMonthsOpen"] = 24
  \<close>
\<close>

definition cell17 :: "row list \<Rightarrow> row list" where
  "cell17 df =
     (let df1 = map (\<lambda>r. r\<lparr>CompetitionMonthsOpen := floordiv (CompetitionDaysOpen r) 30\<rparr>) df
      in map (\<lambda>r. if nan_greater (CompetitionMonthsOpen r) 24
                   then r\<lparr>CompetitionMonthsOpen := Some 24\<rparr> else r) df1)"


text \<open>
  \<^verbatim>\<open>
  df.loc[df.Promo2Days<0, "Promo2Days"] = 0
  df.loc[df.Promo2SinceYear<1990, "Promo2Days"] = 0
  df["Promo2Weeks"] = df["Promo2Days"]//7
  df.loc[df.Promo2Weeks<0, "Promo2Weeks"] = 0
  df.loc[df.Promo2Weeks>25, "Promo2Weeks"] = 25
  \<close>
\<close>

definition cell19 :: "row list \<Rightarrow> row list" where
  "cell19 df =
     (let df1 = map (\<lambda>r. if nan_less (Promo2Days r) 0 then r\<lparr>Promo2Days := Some 0\<rparr> else r) df;
          df2 = map (\<lambda>r. if Promo2SinceYear r < 1990 then r\<lparr>Promo2Days := Some 0\<rparr> else r) df1;
          df3 = map (\<lambda>r. r\<lparr>Promo2Weeks := floordiv (Promo2Days r) 7\<rparr>) df2;
          df4 = map (\<lambda>r. if nan_less (Promo2Weeks r) 0 then r\<lparr>Promo2Weeks := Some 0\<rparr> else r) df3
      in map (\<lambda>r. if nan_greater (Promo2Weeks r) 25 then r\<lparr>Promo2Weeks := Some 25\<rparr> else r) df4)"







subsection \<open>Event proximity (cell 21)\<close>

text \<open>
  The cell works on \<open>df\<close>, the training rows followed by the test rows (cell 20).
  \<^verbatim>\<open>Series.diff()\<close>: the difference of each value to the one before; the first is
  missing.
\<close>

fun diff :: "int list \<Rightarrow> int option list" where
  "diff [] = []"
| "diff (x # xs) = None # map2 (\<lambda>b a. Some (b - a)) xs (x # xs)"

text \<open>
  A number used as a truth value by \<^verbatim>\<open>|\<close>: a missing value counts as false, any
  other number but 0 as true.
\<close>

definition truthy :: "int option \<Rightarrow> bool" where
  "truthy v = (case v of None \<Rightarrow> False | Some x \<Rightarrow> x \<noteq> 0)"

text \<open>\<^verbatim>\<open>ffill\<close> and \<^verbatim>\<open>bfill\<close> of a column.\<close>

fun ffill_from :: "'a option \<Rightarrow> 'a option list \<Rightarrow> 'a option list" where
  "ffill_from prev [] = []"
| "ffill_from prev (None # xs) = prev # ffill_from prev xs"
| "ffill_from prev (Some x # xs) = Some x # ffill_from (Some x) xs"

definition ffill :: "'a option list \<Rightarrow> 'a option list" where
  "ffill xs = ffill_from None xs"

definition bfill :: "'a option list \<Rightarrow> 'a option list" where
  "bfill xs = rev (ffill (rev xs))"

text \<open>
  A timestamp read as a value that is present or missing: NaT is the missing value of a
  timestamp column, to \<^verbatim>\<open>ffill\<close>, to \<^verbatim>\<open>bfill\<close> and to the subtraction.
\<close>

definition opt_date :: "int \<Rightarrow> int option" where
  "opt_date t = (if t = NaT then None else Some t)"

text \<open>
  The difference of two timestamp columns on one row: missing when either timestamp
  is.
\<close>

definition sub_opt :: "int option \<Rightarrow> int option \<Rightarrow> error + int option" where
  "sub_opt a b =
     (case a of
        None \<Rightarrow> Inr None
      | Some x \<Rightarrow> (case b of
          None \<Rightarrow> Inr None
        | Some y \<Rightarrow> sub_datetimes x y))"

text \<open>\<^verbatim>\<open>.astype('timedelta64[D]')\<close>: a time difference in whole days.\<close>

definition td_days :: "int option \<Rightarrow> int option" where
  "td_days d = map_option (\<lambda>x. x div day_ns) d"

text \<open>
  The loop body for one event field, given the sorted table and \<^verbatim>\<open>idx_mask\<close>; the
  result is the pair of the columns \<^verbatim>\<open>'After'+field\<close> and \<^verbatim>\<open>'Before'+field\<close>.
  \<^verbatim>\<open>
  df['tmp'] = df.Date
  df.loc[(df[field] == 0) & idx_mask, 'tmp'] = np.nan
  df['After'+field] = df.tmp.ffill()
  df['Before'+field] = df.tmp.bfill()
  df['After'+field] = (df['Date'] - df['After'+field]).astype('timedelta64[D]')
  df['Before'+field] = (df['Before'+field] - df['Date']).astype('timedelta64[D]')
  \<close>
\<close>

definition event_tmp :: "(row \<Rightarrow> int) \<Rightarrow> row list \<Rightarrow> bool list \<Rightarrow> int option list" where
  "event_tmp field df idx_mask =
     map2 (\<lambda>r m. if field r = 0 \<and> m then None else opt_date (Date r)) df idx_mask"

definition proximity ::
  "(row \<Rightarrow> int) \<Rightarrow> row list \<Rightarrow> bool list \<Rightarrow> error + int option list \<times> int option list" where
  "proximity field df idx_mask =
     (let tmp = event_tmp field df idx_mask;
          after_dates = ffill tmp;
          before_dates = bfill tmp
      in bind_err (collect (map2 (\<lambda>r a. sub_opt (opt_date (Date r)) a) df after_dates)) (\<lambda>after_days.
         bind_err (collect (map2 (\<lambda>r b. sub_opt b (opt_date (Date r))) df before_dates)) (\<lambda>before_days.
         Inr (map td_days after_days, map td_days before_days))))"

text \<open>\<^verbatim>\<open>event_fields = ['SchoolHoliday', 'StateHoliday', 'Promo']\<close>, as column readers.\<close>

definition event_fields :: "(row \<Rightarrow> int) list" where
  "event_fields = [SchoolHoliday, StateHoliday, Promo]"

text \<open>
  \<^verbatim>\<open>
  df = df.sort_values(by=['Store', 'Date'])
  first_indices = df.Store.diff() != 0
  last_indices = df.Store.diff().iloc[1:].append(pd.Series([1]))
  last_indices.index = first_indices.index
  idx_mask = ~(first_indices | last_indices)
  \<close>
  Assigning the index raises ValueError when the lengths differ, which is the case of
  the empty table. The sort puts the rows of a store that have no date after its rows
  that have one (\<^verbatim>\<open>na_position='last'\<close>). It is modelled by the stable \<open>sort_key\<close>;
  pandas promises no order among rows of the same store and date, and nothing proved
  below depends on that order.
\<close>

definition first_indices :: "row list \<Rightarrow> bool list" where
  "first_indices df = map (\<lambda>d. d \<noteq> Some 0) (diff (map Store df))"

definition last_indices :: "row list \<Rightarrow> int option list" where
  "last_indices df = tl (diff (map Store df)) @ [Some 1]"

definition idx_mask_of :: "row list \<Rightarrow> bool list" where
  "idx_mask_of df = map2 (\<lambda>f l. \<not> (f \<or> truthy l)) (first_indices df) (last_indices df)"

text \<open>
  The cell: the sorted table and, for each event field in turn, its two new columns.
\<close>

definition cell21 ::
  "row list \<Rightarrow> error + row list \<times> (int option list \<times> int option list) list" where
  "cell21 df0 =
     (let df = sort_key (\<lambda>r. (Store r, Date r = NaT, Date r)) df0
      in if length (last_indices df) \<noteq> length (first_indices df) then Inl ValueError
         else bind_err (collect (map (\<lambda>field. proximity field df (idx_mask_of df)) event_fields))
                (\<lambda>cols. Inr (df, cols)))"

text \<open>
  The claim's reading of the two columns, on the rows \<open>g\<close> of one store in date
  order. Row \<open>i\<close> is a carry point when its event flag is set or it is the first or
  the last row of the store; \<open>after_event\<close> counts the days from the last carry point
  among rows \<open>0..i\<close> to row \<open>i\<close>, \<open>before_event\<close> the days from row \<open>i\<close> to the first
  carry point among rows \<open>i..\<close>.
\<close>

definition carry_points :: "(row \<Rightarrow> int) \<Rightarrow> row list \<Rightarrow> bool list" where
  "carry_points field g =
     map (\<lambda>i. field (g ! i) \<noteq> 0 \<or> i = 0 \<or> i = length g - 1) [0..<length g]"

definition carry_dates :: "(row \<Rightarrow> int) \<Rightarrow> row list \<Rightarrow> (bool \<times> int) list" where
  "carry_dates field g = zip (carry_points field g) (map Date g)"

definition after_event :: "(row \<Rightarrow> int) \<Rightarrow> row list \<Rightarrow> nat \<Rightarrow> int" where
  "after_event field g i =
     (Date (g ! i) - last (map snd (filter fst (take (Suc i) (carry_dates field g))))) div day_ns"

definition before_event :: "(row \<Rightarrow> int) \<Rightarrow> row list \<Rightarrow> nat \<Rightarrow> int" where
  "before_event field g i =
     (hd (map snd (filter fst (drop i (carry_dates field g)))) - Date (g ! i)) div day_ns"

text \<open>The entries of a column on the rows of store \<open>s\<close>.\<close>

definition of_store :: "int \<Rightarrow> row list \<Rightarrow> 'a list \<Rightarrow> 'a list" where
  "of_store s df col = map snd (filter (\<lambda>(r, v). Store r = s) (zip df col))"

text \<open>The dates of the rows of one store with all but the carry points blanked out.\<close>

definition carry_tmp :: "(row \<Rightarrow> int) \<Rightarrow> row list \<Rightarrow> int option list" where
  "carry_tmp field g = map (\<lambda>(c, d). if c then Some d else None) (carry_dates field g)"

text \<open>A table cut into the rows before those of store \<open>s\<close>, those of \<open>s\<close>, and the rest.\<close>

definition segment :: "int \<Rightarrow> row list \<Rightarrow> row list \<Rightarrow> row list \<Rightarrow> bool" where
  "segment s A g B =
     (g \<noteq> [] \<and> list_all (\<lambda>r. Store r \<noteq> s) A \<and> list_all (\<lambda>r. Store r = s) g
      \<and> list_all (\<lambda>r. Store r \<noteq> s) B)"

subsection \<open>Rolling sums (cell 22)\<close>

text \<open>
  \<^verbatim>\<open>.rolling(window, min_periods=min_periods).sum()\<close> on one column: the window of
  row \<open>i\<close> is that row and the \<open>window - 1\<close> rows before it, as far as there are any;
  the result is the sum of the values present in the window, and is missing when
  fewer than \<open>min_periods\<close> are present.
\<close>

definition rolling_sum :: "nat \<Rightarrow> nat \<Rightarrow> int option list \<Rightarrow> int option list" where
  "rolling_sum window min_periods xs =
     map (\<lambda>i. let obs = concat (map (\<lambda>v. case v of None \<Rightarrow> [] | Some x \<Rightarrow> [x])
                          (drop (Suc i - window) (take (Suc i) xs)))
             in if min_periods \<le> length obs then Some (sum_list obs) else None)
       [0..<length xs]"








subsection \<open>Tables with named columns\<close>

text \<open>
  For the join helper a table is its list of column labels and its rows, each row the
  list of its cells in column order; a cell is \<open>None\<close> when the value is missing. A
  pandas table is rectangular: every row has one cell per column (\<open>wf_frame\<close>).
\<close>

record 'v frame =
  columns :: "string list"
  rows :: "'v option list list"

definition wf_frame :: "'v frame \<Rightarrow> bool" where
  "wf_frame df = list_all (\<lambda>r. length r = length (columns df)) (rows df)"

fun position :: "'a \<Rightarrow> 'a list \<Rightarrow> nat" where
  "position x [] = 0"
| "position x (y # ys) = (if x = y then 0 else Suc (position x ys))"

text \<open>
  Looking a join key up among the column labels: pandas raises KeyError for a label
  that is no column and ValueError for a label that names several columns.
\<close>

definition label_position :: "string list \<Rightarrow> string \<Rightarrow> error + nat" where
  "label_position cols k =
     (if k \<notin> set cols then Inl KeyError
      else if count_list cols k \<noteq> 1 then Inl ValueError
      else Inr (position k cols))"

text \<open>The cells of a row in the key columns.\<close>

definition key_of :: "string list \<Rightarrow> string list \<Rightarrow> 'v option list \<Rightarrow> 'v option list" where
  "key_of cols on r = map (\<lambda>k. r ! position k cols) on"

text \<open>The rows of the right table whose key equals the key of the left row \<open>l\<close>.\<close>

definition matches ::
  "'v frame \<Rightarrow> string list \<Rightarrow> 'v frame \<Rightarrow> string list \<Rightarrow> 'v option list \<Rightarrow> 'v option list list" where
  "matches left left_on right right_on l =
     filter (\<lambda>r. key_of (columns right) right_on r = key_of (columns left) left_on l) (rows right)"

text \<open>A key label that stands at the same place of \<^verbatim>\<open>left_on\<close> and \<^verbatim>\<open>right_on\<close>.\<close>

definition shared_keys :: "string list \<Rightarrow> string list \<Rightarrow> string list" where
  "shared_keys left_on right_on = map fst (filter (\<lambda>(lk, rk). lk = rk) (zip left_on right_on))"

text \<open>
  \<^verbatim>\<open>left.merge(right, how='left', left_on=..., right_on=..., suffixes=('', rsuffix))\<close>
  as pandas documents it:
  \<^item> the result has the rows of the left table in their order; a left row is followed
    by the cells of each right row with the same key, one result row per such right row
    in the right table's order, or by missing values when there is none; missing key
    cells match each other;
  \<^item> the result has the columns of the left table followed by those of the right table;
    a key column with the same label on both sides appears once; any other right column
    whose label is also a left column gets \<^verbatim>\<open>rsuffix\<close> appended to its label.
\<close>

definition pd_merge_left ::
  "'v frame \<Rightarrow> 'v frame \<Rightarrow> string list \<Rightarrow> string list \<Rightarrow> string \<Rightarrow> error + 'v frame" where
  "pd_merge_left left right left_on right_on rsuffix =
     (if length left_on \<noteq> length right_on then Inl ValueError
      else
        bind_err (collect (map (label_position (columns left)) left_on)) (\<lambda>_.
        bind_err (collect (map (label_position (columns right)) right_on)) (\<lambda>_.
        let keep = filter (\<lambda>j. columns right ! j \<notin> set (shared_keys left_on right_on))
                     [0..<length (columns right)];
            rnames = map (\<lambda>j. columns right ! j) keep;
            rnames = map (\<lambda>c. if c \<in> set (columns left) then c @ rsuffix else c) rnames;
            out_rows = concat (map (\<lambda>l.
                case matches left left_on right right_on l of
                  [] \<Rightarrow> [l @ replicate (length keep) None]
                | ms \<Rightarrow> map (\<lambda>r. l @ map (\<lambda>j. r ! j) keep) ms) (rows left))
        in Inr \<lparr>columns = columns left @ rnames, rows = out_rows\<rparr>)))"

text \<open>
  \<^verbatim>\<open>df.filter(regex='_y$').columns.tolist()\<close> lists the labels in which the regular
  expression is found: \<^verbatim>\<open>$\<close> matches at the end of the label and before a newline
  that ends it.
\<close>

definition ends_with :: "string \<Rightarrow> string \<Rightarrow> bool" where
  "ends_with s c = (length s \<le> length c \<and> drop (length c - length s) c = s)"

definition regex_y :: "string \<Rightarrow> bool" where
  "regex_y c = (ends_with ''_y'' c \<or> ends_with (''_y'' @ [CHR 0x0A]) c)"

text \<open>\<^verbatim>\<open>df.drop(columns=names)\<close> removes every column whose label is among the names.\<close>

definition drop_cells :: "string list \<Rightarrow> string list \<Rightarrow> 'a list \<Rightarrow> 'a list" where
  "drop_cells names cols r = map snd (filter (\<lambda>(c, v). c \<notin> set names) (zip cols r))"

definition drop_columns :: "'v frame \<Rightarrow> string list \<Rightarrow> 'v frame" where
  "drop_columns df names =
     \<lparr>columns = filter (\<lambda>c. c \<notin> set names) (columns df),
      rows = map (drop_cells names (columns df)) (rows df)\<rparr>"

text \<open>Python's \<^verbatim>\<open>x or d\<close> for an optional string or list: \<open>d\<close> when \<open>x\<close> is None or empty.\<close>

definition py_or :: "'a list option \<Rightarrow> 'a list \<Rightarrow> 'a list" where
  "py_or x d = (case x of None \<Rightarrow> d | Some v \<Rightarrow> if v = [] then d else v)"

text \<open>
  The accessor's method; \<open>self\<close> is the table the accessor was made for. A key given
  as one label is the list of that label.
  \<^verbatim>\<open>
  def merge(self, right, left_on, right_on=None, suffix=None):
      df = self._obj.merge(
          right, how='left', left_on=left_on, right_on=right_on or left_on,
          suffixes=('', suffix or '_y'))
      if suffix is None:
          return df.drop(columns=df.filter(regex='_y$').columns.tolist())
      return df
  \<close>
\<close>

definition LeftMerger_merge ::
  "'v frame \<Rightarrow> 'v frame \<Rightarrow> string list \<Rightarrow> string list option \<Rightarrow> string option
   \<Rightarrow> error + 'v frame" where
  "LeftMerger_merge self right left_on right_on suffix =
     bind_err (pd_merge_left self right left_on (py_or right_on left_on) (py_or suffix ''_y''))
       (\<lambda>df. if suffix = None then Inr (drop_columns df (filter regex_y (columns df)))
             else Inr df)"

text \<open>
  The cells of a left row that the helper returns: all of them when a suffix is given,
  and without a suffix those in the columns whose label the regular expression does
  not match.
\<close>

definition kept_cells :: "string option \<Rightarrow> string list \<Rightarrow> 'a list \<Rightarrow> 'a list" where
  "kept_cells suffix cols r =
     (if suffix = None then map snd (filter (\<lambda>(c, v). \<not> regex_y c) (zip cols r)) else r)"

text \<open>
  The cells a right row gives to a result row: those of its columns that are no shared
  key.
\<close>

definition ext_cells :: "'v frame \<Rightarrow> string list \<Rightarrow> 'v option list \<Rightarrow> 'v option list" where
  "ext_cells right shared r =
     map (\<lambda>j. r ! j) (filter (\<lambda>j. columns right ! j \<notin> set shared) [0..<length (columns right)])"

text \<open>
  The cells appended to a left row when at most one right row has its key: those of
  that right row, or missing values.
\<close>

definition appended ::
  "'v frame \<Rightarrow> string list \<Rightarrow> 'v frame \<Rightarrow> string list \<Rightarrow> 'v option list \<Rightarrow> 'v option list" where
  "appended left left_on right right_on l =
     (case matches left left_on right right_on l of
        [] \<Rightarrow> replicate (length (filter (\<lambda>c. c \<notin> set (shared_keys left_on right_on)) (columns right))) None
      | r # _ \<Rightarrow> ext_cells right (shared_keys left_on right_on) r)"

subsection \<open>Example rows\<close>

definition row0 :: row where
  "row0 = \<lparr>Store = 1, Date = 0, Sales = Some 5, SchoolHoliday = 0, StateHoliday = 0, Promo = 0,
     CompetitionOpenSinceYear = 1900, CompetitionOpenSinceMonth = 1, Promo2SinceYear = 1900,
     Promo2SinceWeek = 1, CompetitionOpenSince = 0, CompetitionDaysOpen = None,
     CompetitionMonthsOpen = None, Promo2Since = 0, Promo2Days = None, Promo2Weeks = None\<rparr>"





text \<open>Small tables for the join helper, with integer cells.\<close>

definition sales_tbl :: "int frame" where
  "sales_tbl = \<lparr>columns = [''Store'', ''Sales''],
     rows = [[Some 1, Some 100], [Some 2, Some 200], [Some 1, Some 300]]\<rparr>"

definition store_tbl :: "int frame" where
  "store_tbl = \<lparr>columns = [''Store'', ''Promo2''], rows = [[Some 1, Some 0], [Some 3, Some 1]]\<rparr>"

definition dup_tbl :: "int frame" where
  "dup_tbl = \<lparr>columns = [''Store'', ''Promo2''], rows = [[Some 1, Some 0], [Some 1, Some 1]]\<rparr>"

definition y_left_tbl :: "int frame" where
  "y_left_tbl = \<lparr>columns = [''Store'', ''tally_y''], rows = [[Some 1, Some 7]]\<rparr>"

definition y_right_tbl :: "int frame" where
  "y_right_tbl = \<lparr>columns = [''Store'', ''daily_y''], rows = [[Some 1, Some 9]]\<rparr>"


text \<open>
  Store 1 on three consecutive days with a school holiday on the second only, and
  store 2 on five days with a school holiday on the first only, in arbitrary order.
\<close>

definition three_days :: "row list" where
  "three_days =
     [row0\<lparr>Store := 2, Date := 14 * day_ns\<rparr>,
      row0\<lparr>Store := 1, Date := 12 * day_ns\<rparr>,
      row0\<lparr>Store := 2, Date := 10 * day_ns, SchoolHoliday := 1\<rparr>,
      row0\<lparr>Store := 1, Date := 11 * day_ns, SchoolHoliday := 1\<rparr>,
      row0\<lparr>Store := 2, Date := 11 * day_ns\<rparr>,
      row0\<lparr>Store := 1, Date := 10 * day_ns\<rparr>,
      row0\<lparr>Store := 2, Date := 12 * day_ns\<rparr>,
      row0\<lparr>Store := 2, Date := 13 * day_ns\<rparr>]"

text \<open>
  Store 1 on two days and in a third row without a date, no event on any of them, and
  store 2 on a day one week after the second day of store 1.
\<close>

definition undated_day :: "row list" where
  "undated_day =
     [row0\<lparr>Store := 1, Date := 10 * day_ns\<rparr>,
      row0\<lparr>Store := 1, Date := NaT\<rparr>,
      row0\<lparr>Store := 2, Date := 18 * day_ns\<rparr>,
      row0\<lparr>Store := 1, Date := 11 * day_ns\<rparr>]"



section \<open>The splitter\<close>

lemma num_valid_of_div: "num_valid_of df = int (length df div 4)"
proof -
  have "\<lfloor>(of_nat (length df) :: rat) / 4\<rfloor> = int (length df) div 4"
    using floor_divide_of_int_eq [of "int (length df)" 4, where ?'a = rat] by simp
  then show ?thesis
    by (simp add: num_valid_of_def py_int_def VALID_FRAC_def zdiv_int)
qed

lemma slice_bound_neg:
  "slice_bound (- int k) n = (if k = 0 then 0 else n - k)"
proof -
  have "nat (max 0 (int n - int k)) = n - k" by linarith
  then show ?thesis by (simp add: slice_bound_def)
qed

lemma slice_from_neg:
  "slice_from (- int k) xs = (if k = 0 then xs else drop (length xs - k) xs)"
  by (simp add: slice_from_def slice_bound_neg)

lemma slice_to_neg:
  "slice_to (- int k) xs = (if k = 0 then [] else take (length xs - k) xs)"
  by (simp add: slice_to_def slice_bound_neg)

lemma cell28_char:
  "cell28 df =
     (let s = sort_key Date df; k = length df div 4
      in if k = 0 then ([], s) else (take (length df - k) s, drop (length df - k) s))"
  by (simp add: cell28_def Let_def num_valid_of_div slice_from_neg slice_to_neg)

lemma cell28_append: "fst (cell28 df) @ snd (cell28 df) = sort_key Date df"
  by (simp add: cell28_char Let_def)

lemma cell28_mset: "mset (fst (cell28 df)) + mset (snd (cell28 df)) = mset df"
proof -
  have "mset (fst (cell28 df) @ snd (cell28 df)) = mset df"
    by (simp only: cell28_append mset_sort)
  then show ?thesis by simp
qed




text \<open>
  Claim C8. No row with sales amount 0 reaches the training or the validation output;
  the two outputs together are exactly the rows left by the filter; the validation
  count is computed from the number of rows left by the filter; the test table is
  written as it is, unfiltered.
\<close>

theorem zero_sales_filtered:
  assumes "splitter train_df test_df = (train_out, valid_out, test_out)"
  shows "(\<forall>r \<in> set train_out \<union> set valid_out. Sales r \<noteq> Some 0)
       \<and> mset train_out + mset valid_out = mset (filter (\<lambda>r. Sales r \<noteq> Some 0) train_df)
       \<and> num_valid_of (sort_key Date (cell27 train_df))
           = int (length (filter (\<lambda>r. Sales r \<noteq> Some 0) train_df) div 4)
       \<and> length valid_out
           = (let n = length (filter (\<lambda>r. Sales r \<noteq> Some 0) train_df)
              in if n div 4 = 0 then n else n div 4)
       \<and> test_out = test_df"
proof -
  let ?f = "cell27 train_df"
  from assms have out: "train_out = fst (cell28 ?f)" "valid_out = snd (cell28 ?f)"
    and te: "test_out = test_df"
    by (auto simp: splitter_def split: prod.splits)
  have ms: "mset train_out + mset valid_out = mset ?f"
    unfolding out by (rule cell28_mset)
  then have "set_mset (mset train_out + mset valid_out) = set ?f"
    by simp
  then have sub: "set train_out \<union> set valid_out = set ?f"
    by simp
  have a: "\<forall>r \<in> set train_out \<union> set valid_out. Sales r \<noteq> Some 0"
    unfolding sub by (simp add: cell27_def)
  have n: "num_valid_of (sort_key Date ?f) = int (length ?f div 4)"
    by (simp add: num_valid_of_div)
  have l: "length valid_out = (let n = length ?f in if n div 4 = 0 then n else n div 4)"
    unfolding out by (simp add: cell28_char Let_def)
  from a ms n l te show ?thesis
    by (simp add: cell27_def)
qed

theorem zero_sales_filtered_witness:
  "splitter [row0\<lparr>Sales := Some 0\<rparr>, row0, row0\<lparr>Date := 3, Sales := None\<rparr>] [row0\<lparr>Sales := Some 0\<rparr>]
     = ([], [row0, row0\<lparr>Date := 3, Sales := None\<rparr>], [row0\<lparr>Sales := Some 0\<rparr>])
   \<and> mset ([] :: row list) + mset [row0, row0\<lparr>Date := 3, Sales := None\<rparr>]
     = mset (filter (\<lambda>r. Sales r \<noteq> Some 0)
         [row0\<lparr>Sales := Some 0\<rparr>, row0, row0\<lparr>Date := 3, Sales := None\<rparr>])"
proof -
  have h: "splitter [row0\<lparr>Sales := Some 0\<rparr>, row0, row0\<lparr>Date := 3, Sales := None\<rparr>] [row0\<lparr>Sales := Some 0\<rparr>]
     = ([], [row0, row0\<lparr>Date := 3, Sales := None\<rparr>], [row0\<lparr>Sales := Some 0\<rparr>])"
    by (simp add: splitter_def cell27_def cell28_char row0_def)
  from zero_sales_filtered [OF h] h show ?thesis by blast
qed

text \<open>
  Claim C9. When the computed validation count is 0, which with the fraction 0.25
  happens for every table of fewer than 4 rows, the training output is empty and the
  validation output holds all rows: \<^verbatim>\<open>[:-0]\<close> is the empty slice and
  \<^verbatim>\<open>[-0:]\<close> the whole table.
\<close>

theorem split_zero_validation_count:
  "(length df < 4 \<longrightarrow> num_valid_of (sort_key Date df) = 0)
   \<and> (num_valid_of (sort_key Date df) = 0 \<longrightarrow>
        fst (cell28 df) = [] \<and> snd (cell28 df) = sort_key Date df
        \<and> mset (snd (cell28 df)) = mset df)"
  by (simp add: num_valid_of_div cell28_char Let_def)

theorem split_zero_validation_count_witness:
  "length [row0\<lparr>Date := 2\<rparr>, row0\<lparr>Date := 1\<rparr>, row0\<lparr>Date := 3\<rparr>] < 4
   \<and> fst (cell28 [row0\<lparr>Date := 2\<rparr>, row0\<lparr>Date := 1\<rparr>, row0\<lparr>Date := 3\<rparr>]) = []
   \<and> snd (cell28 [row0\<lparr>Date := 2\<rparr>, row0\<lparr>Date := 1\<rparr>, row0\<lparr>Date := 3\<rparr>])
       = [row0\<lparr>Date := 1\<rparr>, row0\<lparr>Date := 2\<rparr>, row0\<lparr>Date := 3\<rparr>]"
  using split_zero_validation_count [of "[row0\<lparr>Date := 2\<rparr>, row0\<lparr>Date := 1\<rparr>, row0\<lparr>Date := 3\<rparr>]"]
  by (simp add: row0_def)

section \<open>Date-derived features\<close>

lemma days_from_civil_examples:
  "days_from_civil 1970 1 1 = 0" "days_from_civil 2015 7 31 = 16647"
  "days_from_civil 1900 1 15 = - 25553" "days_from_civil 2000 2 29 + 1 = days_from_civil 2000 3 1"
  by (simp_all add: days_from_civil_def)

lemma collect_map_Inr: "collect (map Inr vs) = Inr vs"
  by (induction vs) simp_all

lemma collect_Inr_D: "collect xs = Inr vs \<Longrightarrow> xs = map Inr vs"
  by (induction xs arbitrary: vs) (auto split: sum.splits)

lemma collect_Inr_iff: "collect xs = Inr vs \<longleftrightarrow> xs = map Inr vs"
  using collect_map_Inr collect_Inr_D by blast

lemma bind_err_Inr_iff: "bind_err x f = Inr y \<longleftrightarrow> (\<exists>v. x = Inr v \<and> f v = Inr y)"
  by (cases x) (simp_all add: bind_err_def)

lemma map_eq_map_Inr:
  assumes "map f xs = map Inr vs"
  shows "length vs = length xs" and "i < length xs \<Longrightarrow> f (xs ! i) = Inr (vs ! i)"
proof -
  show l: "length vs = length xs"
    using assms by (metis length_map)
  show "f (xs ! i) = Inr (vs ! i)" if "i < length xs"
    using that l nth_map [of i xs f] nth_map [of i vs Inr] assms by simp
qed







lemma cell_lengths [simp]:
  "length (cell16 df) = length df" "length (cell17 df) = length df"
  "length (cell19 df) = length df"
  by (simp_all add: cell16_def cell17_def cell19_def Let_def)































section \<open>The left-join helper\<close>

lemma map_nth_filter_upt:
  "map (\<lambda>j. xs ! j) (filter (\<lambda>j. P (xs ! j)) [0..<length xs]) = filter P xs"
proof (induction xs rule: rev_induct)
  case Nil
  then show ?case by simp
next
  case (snoc x xs)
  have "map (\<lambda>j. (xs @ [x]) ! j) (filter (\<lambda>j. P ((xs @ [x]) ! j)) [0..<length xs])
        = map (\<lambda>j. xs ! j) (filter (\<lambda>j. P (xs ! j)) [0..<length xs])"
    by (intro map_cong filter_cong refl) (auto simp: nth_append)
  with snoc show ?case by simp
qed

lemma pd_merge_left_Inr:
  assumes "pd_merge_left left right left_on right_on rsuffix = Inr m"
  shows "columns m = columns left @
           map (\<lambda>c. if c \<in> set (columns left) then c @ rsuffix else c)
             (filter (\<lambda>c. c \<notin> set (shared_keys left_on right_on)) (columns right))"
    and "rows m = concat (map (\<lambda>l.
           case matches left left_on right right_on l of
             [] \<Rightarrow> [l @ replicate (length (filter (\<lambda>c. c \<notin> set (shared_keys left_on right_on)) (columns right))) None]
           | ms \<Rightarrow> map (\<lambda>r. l @ ext_cells right (shared_keys left_on right_on) r) ms) (rows left))"
proof -
  let ?keep = "filter (\<lambda>j. columns right ! j \<notin> set (shared_keys left_on right_on))
                 [0..<length (columns right)]"
  have k: "map (\<lambda>j. columns right ! j) ?keep
           = filter (\<lambda>c. c \<notin> set (shared_keys left_on right_on)) (columns right)"
    by (rule map_nth_filter_upt)
  have lk: "length ?keep = length (filter (\<lambda>c. c \<notin> set (shared_keys left_on right_on)) (columns right))"
    using arg_cong [OF k, of length] by simp
  from assms have m: "m = \<lparr>columns = columns left @
        map (\<lambda>c. if c \<in> set (columns left) then c @ rsuffix else c) (map (\<lambda>j. columns right ! j) ?keep),
      rows = concat (map (\<lambda>l.
                case matches left left_on right right_on l of
                  [] \<Rightarrow> [l @ replicate (length ?keep) None]
                | ms \<Rightarrow> map (\<lambda>r. l @ map (\<lambda>j. r ! j) ?keep) ms) (rows left))\<rparr>"
    by (auto simp: pd_merge_left_def bind_err_Inr_iff Let_def split: if_splits)
  show "columns m = columns left @
           map (\<lambda>c. if c \<in> set (columns left) then c @ rsuffix else c)
             (filter (\<lambda>c. c \<notin> set (shared_keys left_on right_on)) (columns right))"
    unfolding m k by simp
  show "rows m = concat (map (\<lambda>l.
           case matches left left_on right right_on l of
             [] \<Rightarrow> [l @ replicate (length (filter (\<lambda>c. c \<notin> set (shared_keys left_on right_on)) (columns right))) None]
           | ms \<Rightarrow> map (\<lambda>r. l @ ext_cells right (shared_keys left_on right_on) r) ms) (rows left))"
    unfolding m lk ext_cells_def by simp
qed

lemma length_ext_cells:
  "length (ext_cells right shared r) = length (filter (\<lambda>c. c \<notin> set shared) (columns right))"
proof -
  have "length (ext_cells right shared r)
        = length (map (\<lambda>j. columns right ! j)
            (filter (\<lambda>j. columns right ! j \<notin> set shared) [0..<length (columns right)]))"
    by (simp add: ext_cells_def)
  also have "\<dots> = length (filter (\<lambda>c. c \<notin> set shared) (columns right))"
    using arg_cong [OF map_nth_filter_upt [of "columns right" "\<lambda>c. c \<notin> set shared"], of length]
    by simp
  finally show ?thesis .
qed

lemma filter_key_distinct:
  "distinct (map f xs) \<Longrightarrow> length (filter (\<lambda>x. f x = k) xs) \<le> 1"
proof (induction xs)
  case Nil
  then show ?case by simp
next
  case (Cons x xs)
  show ?case
  proof (cases "f x = k")
    case True
    from Cons.prems have "f x \<notin> f ` set xs" by simp
    then have "\<And>y. y \<in> set xs \<Longrightarrow> f y \<noteq> k"
      unfolding True [symmetric] by (metis imageI)
    then have "filter (\<lambda>x. f x = k) xs = []"
      by (simp add: filter_empty_conv)
    with True show ?thesis by simp
  next
    case False
    with Cons show ?thesis by simp
  qed
qed

lemma matches_unique:
  "distinct (map (key_of (columns right) right_on) (rows right))
   \<Longrightarrow> length (matches left left_on right right_on l) \<le> 1"
  unfolding matches_def by (rule filter_key_distinct)

lemma length_appended:
  "length (appended left left_on right right_on l)
   = length (filter (\<lambda>c. c \<notin> set (shared_keys left_on right_on)) (columns right))"
  by (simp add: appended_def length_ext_cells split: list.splits)

lemma pd_merge_left_rows_unique:
  assumes "pd_merge_left left right left_on right_on rsuffix = Inr m"
    and "distinct (map (key_of (columns right) right_on) (rows right))"
  shows "rows m = map (\<lambda>l. l @ appended left left_on right right_on l) (rows left)"
proof -
  have one: "(case matches left left_on right right_on l of
             [] \<Rightarrow> [l @ replicate (length (filter (\<lambda>c. c \<notin> set (shared_keys left_on right_on)) (columns right))) None]
           | ms \<Rightarrow> map (\<lambda>r. l @ ext_cells right (shared_keys left_on right_on) r) ms)
        = [l @ appended left left_on right right_on l]" for l
  proof (cases "matches left left_on right right_on l")
    case Nil
    then show ?thesis by (simp add: appended_def)
  next
    case (Cons r rs)
    with matches_unique [OF assms(2), of left left_on l] have "rs = []" by simp
    with Cons show ?thesis by (simp add: appended_def)
  qed
  show ?thesis
    unfolding pd_merge_left_Inr(2) [OF assms(1)] one by (induction "rows left") simp_all
qed

lemma drop_cells_append:
  "length cs = length l \<Longrightarrow>
   drop_cells names (cs @ rn) (l @ e) = drop_cells names cs l @ drop_cells names rn e"
  by (simp add: drop_cells_def)

lemma drop_cells_regex:
  assumes "set cs \<subseteq> set allcols"
  shows "drop_cells (filter regex_y allcols) cs l = kept_cells None cs l"
proof -
  have "filter (\<lambda>(c, v). c \<notin> set (filter regex_y allcols)) (zip cs l)
        = filter (\<lambda>(c, v). \<not> regex_y c) (zip cs l)"
  proof (rule filter_cong [OF refl])
    fix p assume p: "p \<in> set (zip cs l)"
    obtain c v where cv: "p = (c, v)" by (cases p)
    from p have "fst p \<in> set cs" unfolding cv by (auto dest: set_zip_leftD)
    with assms show "(case p of (c, v) \<Rightarrow> c \<notin> set (filter regex_y allcols))
        = (case p of (c, v) \<Rightarrow> \<not> regex_y c)"
      by (cases p) auto
  qed
  then show ?thesis by (simp add: drop_cells_def kept_cells_def)
qed

lemma set_drop_cells: "set (drop_cells names cs e) \<subseteq> set e"
  by (auto simp: drop_cells_def dest: set_zip_rightD)

lemma length_drop_cells:
  "length r = length cs \<Longrightarrow>
   length (drop_cells names cs r) = length (filter (\<lambda>c. c \<notin> set names) cs)"
proof (induction cs arbitrary: r)
  case Nil
  then show ?case by (simp add: drop_cells_def)
next
  case (Cons c cs)
  then obtain v r' where r: "r = v # r'" "length r' = length cs"
    by (cases r) auto
  from Cons.IH [OF r(2)] show ?case
    by (simp add: drop_cells_def r)
qed

lemma appended_unmatched:
  "matches left left_on right right_on l = [] \<Longrightarrow>
   list_all (\<lambda>v. v = None) (appended left left_on right right_on l)"
  by (simp add: appended_def list_all_iff)

lemma LeftMerger_merge_Inr:
  assumes "LeftMerger_merge left right left_on right_on suffix = Inr df"
  obtains m where
    "pd_merge_left left right left_on (py_or right_on left_on) (py_or suffix ''_y'') = Inr m"
    "df = (if suffix = None then drop_columns m (filter regex_y (columns m)) else m)"
  using assms by (auto simp: LeftMerger_merge_def bind_err_Inr_iff split: if_splits)



lemma collect_labels_subset:
  assumes "collect (map (label_position cols) ks) = Inr ps"
  shows "set ks \<subseteq> set cols"
proof
  fix k assume "k \<in> set ks"
  then obtain i where i: "i < length ks" "ks ! i = k"
    by (auto simp: in_set_conv_nth)
  from assms have "map (label_position cols) ks = map Inr ps"
    by (simp add: collect_Inr_iff)
  from map_eq_map_Inr(2) [OF this i(1)] have "label_position cols k = Inr (ps ! i)"
    using i(2) by simp
  then show "k \<in> set cols"
    by (auto simp: label_position_def split: if_splits)
qed

lemma shared_keys_subset: "set (shared_keys left_on right_on) \<subseteq> set left_on"
  by (auto simp: shared_keys_def dest: set_zip_leftD)

lemma pd_merge_left_shared:
  assumes "pd_merge_left left right left_on right_on rsuffix = Inr m"
  shows "set (shared_keys left_on right_on) \<subseteq> set (columns left)"
proof -
  from assms obtain ps where "collect (map (label_position (columns left)) left_on) = Inr ps"
    by (auto simp: pd_merge_left_def bind_err_Inr_iff split: if_splits)
  from collect_labels_subset [OF this] shared_keys_subset [of left_on right_on]
  show ?thesis by blast
qed


lemma LeftMerger_merge_None_columns:
  assumes "LeftMerger_merge left right left_on right_on None = Inr df"
  obtains m where
    "pd_merge_left left right left_on (py_or right_on left_on) ''_y'' = Inr m"
    "columns df = filter (\<lambda>c. \<not> regex_y c) (columns m)"
    "rows df = map (drop_cells (filter regex_y (columns m)) (columns m)) (rows m)"
proof -
  from assms obtain m where
    m: "pd_merge_left left right left_on (py_or right_on left_on) (py_or None ''_y'') = Inr m"
    and df: "df = (if (None :: string option) = None then drop_columns m (filter regex_y (columns m)) else m)"
    by (rule LeftMerger_merge_Inr)
  have "filter (\<lambda>c. c \<notin> set (filter regex_y (columns m))) (columns m)
        = filter (\<lambda>c. \<not> regex_y c) (columns m)"
    by (rule filter_cong) auto
  with m df that show ?thesis
    by (simp add: drop_columns_def py_or_def)
qed





lemma kept_cells_labels:
  "kept_cells suffix cols cols = (if suffix = None then filter (\<lambda>c. \<not> regex_y c) cols else cols)"
proof -
  have "map snd (filter (\<lambda>(c, v). \<not> regex_y c) (zip cs cs)) = filter (\<lambda>c. \<not> regex_y c) cs"
    for cs :: "string list"
    by (induction cs) auto
  then show ?thesis by (simp add: kept_cells_def)
qed

lemma filter_not_dropped:
  "set cs \<subseteq> set allcols \<Longrightarrow>
   filter (\<lambda>c. c \<notin> set (filter regex_y allcols)) cs = filter (\<lambda>c. \<not> regex_y c) cs"
  by (rule filter_cong) auto

text \<open>
  Claim C1, amended. When no two rows of the right table have the same join key, the
  helper returns a table with as many rows as the left table, in the left table's
  order. Its columns are the left columns the helper keeps (\<open>kept_cells\<close> of the
  labels) followed by the appended right columns; result row \<open>i\<close> is the kept cells
  of left row \<open>i\<close> followed by one cell for each appended column, and these cells are
  all missing when no right row has the key of left row \<open>i\<close>.
\<close>

theorem left_join_keeps_rows:
  assumes "wf_frame left"
    and "LeftMerger_merge left right left_on right_on suffix = Inr df"
    and "distinct (map (key_of (columns right) (py_or right_on left_on)) (rows right))"
  shows "length (rows df) = length (rows left)
       \<and> (\<exists>rcols. columns df = kept_cells suffix (columns left) (columns left) @ rcols
           \<and> (\<forall>i < length (rows left). \<exists>extra.
                 rows df ! i = kept_cells suffix (columns left) (rows left ! i) @ extra
               \<and> length extra = length rcols
               \<and> (matches left left_on right (py_or right_on left_on) (rows left ! i) = []
                    \<longrightarrow> list_all (\<lambda>v. v = None) extra)))"
proof -
  let ?ro = "py_or right_on left_on"
  let ?app = "appended left left_on right ?ro"
  let ?rn = "map (\<lambda>c. if c \<in> set (columns left) then c @ py_or suffix ''_y'' else c)
             (filter (\<lambda>c. c \<notin> set (shared_keys left_on ?ro)) (columns right))"
  from assms(2) obtain m where
    m: "pd_merge_left left right left_on ?ro (py_or suffix ''_y'') = Inr m"
    and df: "df = (if suffix = None then drop_columns m (filter regex_y (columns m)) else m)"
    by (rule LeftMerger_merge_Inr)
  have cm: "columns m = columns left @ ?rn"
    by (rule pd_merge_left_Inr(1) [OF m])
  have rm: "rows m = map (\<lambda>l. l @ ?app l) (rows left)"
    by (rule pd_merge_left_rows_unique [OF m assms(3)])
  have wl: "length l = length (columns left)" if "l \<in> set (rows left)" for l
    using assms(1) that by (simp add: wf_frame_def list_all_iff)
  have lrn: "length (?app l) = length ?rn" for l
    by (simp add: length_appended)
  show ?thesis
  proof (cases "suffix = None")
    case False
    then have d: "df = m" using df by auto
    have 1: "length (rows df) = length (rows left)" by (simp add: d rm)
    have 2: "columns df = kept_cells suffix (columns left) (columns left) @ ?rn"
      using False by (auto simp: d cm kept_cells_labels)
    have 3: "\<exists>extra. rows df ! i = kept_cells suffix (columns left) (rows left ! i) @ extra
           \<and> length extra = length ?rn
           \<and> (matches left left_on right ?ro (rows left ! i) = [] \<longrightarrow> list_all (\<lambda>v. v = None) extra)"
      if "i < length (rows left)" for i
    proof -
      have "rows df ! i = kept_cells suffix (columns left) (rows left ! i) @ ?app (rows left ! i)"
        using that False by (auto simp: d rm kept_cells_def)
      then show ?thesis using appended_unmatched lrn by blast
    qed
    from 1 2 3 show ?thesis by blast
  next
    case True
    let ?names = "filter regex_y (columns m)"
    let ?rc = "filter (\<lambda>c. \<not> regex_y c) ?rn"
    have d: "df = drop_columns m ?names" using df True by simp
    have rd: "rows df = map (\<lambda>l. kept_cells None (columns left) l @ drop_cells ?names ?rn (?app l))
                (rows left)"
    proof -
      have "drop_cells ?names (columns m) (l @ ?app l)
            = kept_cells None (columns left) l @ drop_cells ?names ?rn (?app l)"
        if "l \<in> set (rows left)" for l
      proof -
        have "drop_cells ?names (columns left @ ?rn) (l @ ?app l)
              = drop_cells ?names (columns left) l @ drop_cells ?names ?rn (?app l)"
          by (rule drop_cells_append) (simp add: wl [OF that])
        moreover have "drop_cells ?names (columns left) l = kept_cells None (columns left) l"
          by (rule drop_cells_regex) (simp add: cm)
        ultimately show ?thesis by (simp only: cm)
      qed
      then show ?thesis
        by (simp add: d drop_columns_def rm)
    qed
    have 1: "length (rows df) = length (rows left)" by (simp add: rd)
    have "columns df = filter (\<lambda>c. c \<notin> set ?names) (columns left) @ filter (\<lambda>c. c \<notin> set ?names) ?rn"
      by (simp add: d drop_columns_def cm)
    moreover have "filter (\<lambda>c. c \<notin> set ?names) (columns left) = filter (\<lambda>c. \<not> regex_y c) (columns left)"
      by (rule filter_not_dropped) (simp add: cm)
    moreover have frn: "filter (\<lambda>c. c \<notin> set ?names) ?rn = ?rc"
      by (rule filter_not_dropped) (simp add: cm)
    ultimately have 2: "columns df = kept_cells suffix (columns left) (columns left) @ ?rc"
      using True by (simp add: kept_cells_labels)
    have 3: "\<exists>extra. rows df ! i = kept_cells suffix (columns left) (rows left ! i) @ extra
           \<and> length extra = length ?rc
           \<and> (matches left left_on right ?ro (rows left ! i) = [] \<longrightarrow> list_all (\<lambda>v. v = None) extra)"
      if "i < length (rows left)" for i
    proof -
      let ?l = "rows left ! i"
      have a: "rows df ! i = kept_cells suffix (columns left) ?l @ drop_cells ?names ?rn (?app ?l)"
        using that True by (simp add: rd)
      have "length (drop_cells ?names ?rn (?app ?l)) = length (filter (\<lambda>c. c \<notin> set ?names) ?rn)"
        by (rule length_drop_cells) (rule lrn)
      then have l: "length (drop_cells ?names ?rn (?app ?l)) = length ?rc"
        by (simp only: frn)
      have b: "list_all (\<lambda>v. v = None) (drop_cells ?names ?rn (?app ?l))"
        if "matches left left_on right ?ro ?l = []"
        using appended_unmatched [OF that] set_drop_cells [of ?names ?rn "?app ?l"]
        by (auto simp: list_all_iff)
      from a l b show ?thesis by blast
    qed
    from 1 2 3 show ?thesis by blast
  qed
qed

theorem left_join_keeps_rows_witness:
  "wf_frame sales_tbl
   \<and> LeftMerger_merge sales_tbl store_tbl [''Store''] None None
     = Inr \<lparr>columns = [''Store'', ''Sales'', ''Promo2''],
            rows = [[Some 1, Some 100, Some 0], [Some 2, Some 200, None],
                    [Some 1, Some 300, Some 0]]\<rparr>
   \<and> distinct (map (key_of (columns store_tbl) (py_or None [''Store''])) (rows store_tbl))
   \<and> length (rows \<lparr>columns = [''Store'', ''Sales'', ''Promo2''],
            rows = [[Some 1, Some 100, Some 0], [Some 2, Some 200, None],
                    [Some 1, Some (300::int), Some 0]]\<rparr>) = length (rows sales_tbl)
   \<and> matches sales_tbl [''Store''] store_tbl (py_or None [''Store'']) (rows sales_tbl ! 1) = []"
proof -
  have a: "wf_frame sales_tbl" by code_simp
  have b: "LeftMerger_merge sales_tbl store_tbl [''Store''] None None
     = Inr \<lparr>columns = [''Store'', ''Sales'', ''Promo2''],
            rows = [[Some 1, Some 100, Some 0], [Some 2, Some 200, None],
                    [Some 1, Some 300, Some 0]]\<rparr>" by code_simp
  have c: "distinct (map (key_of (columns store_tbl) (py_or None [''Store''])) (rows store_tbl))"
    by code_simp
  have d: "matches sales_tbl [''Store''] store_tbl (py_or None [''Store'']) (rows sales_tbl ! 1) = []"
    by code_simp
  from left_join_keeps_rows [OF a b c] a b c d show ?thesis by blast
qed

text \<open>
  The claim as stated, for every right table, fails: a right table with two rows for
  store 1 makes two result rows out of each left row of store 1, five rows from three.
\<close>

theorem left_join_keeps_rows_counterexample:
  "LeftMerger_merge sales_tbl dup_tbl [''Store''] None None
     = Inr \<lparr>columns = [''Store'', ''Sales'', ''Promo2''],
            rows = [[Some 1, Some 100, Some 0], [Some 1, Some 100, Some 1],
                    [Some 2, Some 200, None],
                    [Some 1, Some 300, Some 0], [Some 1, Some 300, Some 1]]\<rparr>
   \<and> length (rows sales_tbl) = 3
   \<and> distinct (map (key_of (columns dup_tbl) (py_or None [''Store''])) (rows dup_tbl)) = False"
  by code_simp




text \<open>
  Claim C10. Without a suffix the result has no column whose label ends in \<open>_y\<close>: its
  columns are those of the merged table whose label the regular expression does not
  match, and the merged table holds every left column and every right column that is
  no left column under its own label, so such a column is dropped as well when its
  label ends in \<open>_y\<close>.
\<close>

theorem suffixless_join_drops_every_y_label:
  assumes "LeftMerger_merge left right left_on right_on None = Inr df"
  shows "(\<forall>c \<in> set (columns df). \<not> ends_with ''_y'' c)
       \<and> (\<exists>m. pd_merge_left left right left_on (py_or right_on left_on) ''_y'' = Inr m
              \<and> columns df = filter (\<lambda>c. \<not> regex_y c) (columns m)
              \<and> set (columns left) \<union> (set (columns right) - set (columns left)) \<subseteq> set (columns m))"
proof -
  from assms obtain m where
    m: "pd_merge_left left right left_on (py_or right_on left_on) ''_y'' = Inr m"
    and c: "columns df = filter (\<lambda>c. \<not> regex_y c) (columns m)"
    by (rule LeftMerger_merge_None_columns)
  have 1: "\<forall>c \<in> set (columns df). \<not> ends_with ''_y'' c"
    unfolding c by (simp add: regex_y_def)
  have "set (shared_keys left_on (py_or right_on left_on)) \<subseteq> set (columns left)"
    by (rule pd_merge_left_shared [OF m])
  then have 2: "set (columns left) \<union> (set (columns right) - set (columns left)) \<subseteq> set (columns m)"
    unfolding pd_merge_left_Inr(1) [OF m] by (auto simp: image_iff)
  from 1 2 m c show ?thesis by blast
qed

theorem suffixless_join_drops_every_y_label_witness:
  "LeftMerger_merge y_left_tbl y_right_tbl [''Store''] None None
     = Inr \<lparr>columns = [''Store''], rows = [[Some 1]]\<rparr>
   \<and> columns y_left_tbl = [''Store'', ''tally_y'']
   \<and> columns y_right_tbl = [''Store'', ''daily_y'']
   \<and> \<not> ends_with ''_y'' ''Store''"
proof -
  have h: "LeftMerger_merge y_left_tbl y_right_tbl [''Store''] None None
     = Inr \<lparr>columns = [''Store''], rows = [[Some 1]]\<rparr>"
    by code_simp
  have c: "columns y_left_tbl = [''Store'', ''tally_y'']" "columns y_right_tbl = [''Store'', ''daily_y'']"
    by (simp_all add: y_left_tbl_def y_right_tbl_def)
  from suffixless_join_drops_every_y_label [OF h] have "\<not> ends_with ''_y'' ''Store''"
    by simp
  with h c show ?thesis by blast
qed

section \<open>Event proximity\<close>

lemma length_diff [simp]: "length (diff xs) = length xs"
  by (cases xs) simp_all

lemma diff_nth:
  "i < length xs \<Longrightarrow> diff xs ! i = (if i = 0 then None else Some (xs ! i - xs ! (i - 1)))"
proof (cases xs)
  case Nil
  then show "i < length xs \<Longrightarrow> ?thesis" by simp
next
  case (Cons x ys)
  show "i < length xs \<Longrightarrow> ?thesis"
  proof (cases i)
    case 0
    then show ?thesis using Cons by simp
  next
    case (Suc j)
    assume "i < length xs"
    then have "j < length ys" using Cons Suc by simp
    then show ?thesis using Cons Suc by simp
  qed
qed

lemma length_first_indices [simp]: "length (first_indices df) = length df"
  by (simp add: first_indices_def)

lemma length_last_indices: "df \<noteq> [] \<Longrightarrow> length (last_indices df) = length df"
  by (cases df) (simp_all add: last_indices_def)

lemma length_idx_mask_of: "df \<noteq> [] \<Longrightarrow> length (idx_mask_of df) = length df"
  by (simp add: idx_mask_of_def length_last_indices)

lemma first_indices_nth:
  "i < length df \<Longrightarrow>
   first_indices df ! i = (i = 0 \<or> Store (df ! i) \<noteq> Store (df ! (i - 1)))"
  by (auto simp: first_indices_def diff_nth)

lemma last_indices_nth:
  assumes "i < length df"
  shows "truthy (last_indices df ! i) = (i = length df - 1 \<or> Store (df ! Suc i) \<noteq> Store (df ! i))"
proof (cases "i = length df - 1")
  case True
  then have "last_indices df ! i = Some 1"
    by (simp add: last_indices_def nth_append)
  with True show ?thesis by (simp add: truthy_def)
next
  case False
  with assms have s: "Suc i < length df" by simp
  then have "i < length (tl (diff (map Store df)))" by simp
  then have "last_indices df ! i = diff (map Store df) ! Suc i"
    unfolding last_indices_def by (simp only: nth_append nth_tl if_True)
  also have "\<dots> = Some (Store (df ! Suc i) - Store (df ! i))"
    using s by (simp add: diff_nth)
  finally show ?thesis using False by (simp add: truthy_def)
qed

lemma idx_mask_of_nth:
  assumes "i < length df"
  shows "idx_mask_of df ! i =
     (\<not> (i = 0 \<or> Store (df ! i) \<noteq> Store (df ! (i - 1))
         \<or> i = length df - 1 \<or> Store (df ! Suc i) \<noteq> Store (df ! i)))"
proof -
  from assms have "df \<noteq> []" by auto
  then have "i < length (last_indices df)" using assms by (simp add: length_last_indices)
  then show ?thesis
    using assms by (auto simp: idx_mask_of_def first_indices_nth last_indices_nth)
qed

lemma length_ffill_from [simp]: "length (ffill_from p xs) = length xs"
  by (induction p xs rule: ffill_from.induct) simp_all

lemma length_ffill [simp]: "length (ffill xs) = length xs"
  by (simp add: ffill_def)

lemma length_bfill [simp]: "length (bfill xs) = length xs"
  by (simp add: bfill_def)

lemma ffill_from_nth:
  "i < length xs \<Longrightarrow>
   ffill_from p xs ! i =
     (case filter (\<lambda>x. x \<noteq> None) (take (Suc i) xs) of [] \<Rightarrow> p | zs \<Rightarrow> last zs)"
proof (induction p xs arbitrary: i rule: ffill_from.induct)
  case (1 prev)
  then show ?case by simp
next
  case (2 prev xs)
  then show ?case by (cases i) simp_all
next
  case (3 prev x xs)
  show ?case
  proof (cases i)
    case 0
    then show ?thesis by simp
  next
    case (Suc j)
    with 3 show ?thesis by (simp split: list.splits)
  qed
qed

lemma ffill_nth:
  "i < length xs \<Longrightarrow>
   ffill xs ! i = (case filter (\<lambda>x. x \<noteq> None) (take (Suc i) xs) of [] \<Rightarrow> None | zs \<Rightarrow> last zs)"
  by (simp add: ffill_def ffill_from_nth)

lemma bfill_nth:
  assumes "i < length xs"
  shows "bfill xs ! i = (case filter (\<lambda>x. x \<noteq> None) (drop i xs) of [] \<Rightarrow> None | zs \<Rightarrow> hd zs)"
proof -
  let ?n = "length xs"
  have "bfill xs ! i = ffill (rev xs) ! (?n - Suc i)"
    using assms by (simp add: bfill_def rev_nth)
  also have "\<dots> = (case filter (\<lambda>x. x \<noteq> None) (take (Suc (?n - Suc i)) (rev xs)) of
                      [] \<Rightarrow> None | zs \<Rightarrow> last zs)"
    using assms by (simp add: ffill_nth)
  also have "take (Suc (?n - Suc i)) (rev xs) = rev (drop i xs)"
    using assms by (simp add: take_rev Suc_diff_Suc)
  also have "(case filter (\<lambda>x. x \<noteq> None) (rev (drop i xs)) of [] \<Rightarrow> None | zs \<Rightarrow> last zs)
             = (case filter (\<lambda>x. x \<noteq> None) (drop i xs) of [] \<Rightarrow> None | zs \<Rightarrow> hd zs)"
  proof (cases "filter (\<lambda>x. x \<noteq> None) (drop i xs)")
    case Nil
    then have "filter (\<lambda>x. x \<noteq> None) (rev (drop i xs)) = []"
      by (simp add: rev_filter [symmetric])
    with Nil show ?thesis by simp
  next
    case (Cons a zs)
    then have r: "filter (\<lambda>x. x \<noteq> None) (rev (drop i xs)) = rev zs @ [a]"
      by (simp add: rev_filter [symmetric])
    have "(case rev zs @ [a] of [] \<Rightarrow> None | ys \<Rightarrow> last ys) = a"
      by (cases "rev zs @ [a]") (simp, metis last_snoc list.simps(5))
    with Cons r show ?thesis by simp
  qed
  finally show ?thesis .
qed


lemma sorted_store_split:
  "sorted (map Store xs) \<Longrightarrow>
   xs = filter (\<lambda>r. Store r < s) xs @ filter (\<lambda>r. Store r = s) xs @ filter (\<lambda>r. s < Store r) xs"
proof (induction xs)
  case Nil
  then show ?case by simp
next
  case (Cons x xs)
  then have le: "\<forall>y \<in> set xs. Store x \<le> Store y"
    and ih: "xs = filter (\<lambda>r. Store r < s) xs @ filter (\<lambda>r. Store r = s) xs @ filter (\<lambda>r. s < Store r) xs"
    by auto
  consider "Store x < s" | "Store x = s" | "s < Store x" by linarith
  then show ?case
  proof cases
    case 1
    then show ?thesis using ih by simp
  next
    case 2
    then have "filter (\<lambda>r. Store r < s) xs = []"
      using le by (fastforce simp: filter_empty_conv)
    with 2 ih show ?thesis by simp
  next
    case 3
    then have "filter (\<lambda>r. Store r < s) xs = []" "filter (\<lambda>r. Store r = s) xs = []"
      using le by (fastforce simp: filter_empty_conv)+
    with 3 ih show ?thesis by simp
  qed
qed

lemma sorted_store_of_sort:
  "sorted (map Store (sort_key (\<lambda>r. (Store r, Date r = NaT, Date r)) df))"
proof -
  let ?key = "\<lambda>r. (Store r, Date r = NaT, Date r)"
  have "sorted (map ?key (sort_key ?key df))"
    by (rule sorted_sort_key)
  then have "sorted_wrt (\<lambda>a b. ?key a \<le> ?key b) (sort_key ?key df)"
    by (simp add: sorted_map)
  then have "sorted_wrt (\<lambda>a b. Store a \<le> Store b) (sort_key ?key df)"
    by (rule sorted_wrt_mono_rel [rotated]) (auto simp: less_eq_prod_def)
  then show ?thesis by (simp add: sorted_map)
qed

lemma idx_mask_segment:
  assumes "segment s A g B" and "j < length g"
  shows "idx_mask_of (A @ g @ B) ! (length A + j) = (\<not> (j = 0 \<or> j = length g - 1))"
proof -
  let ?df = "A @ g @ B"
  let ?i = "length A + j"
  from assms have g: "\<And>k. k < length g \<Longrightarrow> Store (g ! k) = s"
    and a: "\<And>k. k < length A \<Longrightarrow> Store (A ! k) \<noteq> s"
    and b: "\<And>k. k < length B \<Longrightarrow> Store (B ! k) \<noteq> s"
    by (simp_all add: segment_def list_all_length)
  have i: "?i < length ?df" using assms(2) by simp
  have cur: "Store (?df ! ?i) = s"
    using assms(2) g by (simp add: nth_append)
  have prev: "(?i = 0 \<or> Store (?df ! ?i) \<noteq> Store (?df ! (?i - 1))) = (j = 0)"
  proof (cases j)
    case 0
    show ?thesis
    proof (cases "length A")
      case 0
      with \<open>j = 0\<close> show ?thesis by simp
    next
      case (Suc n)
      then have "?df ! (?i - 1) = A ! n" using \<open>j = 0\<close> by (simp add: nth_append)
      with a [of n] Suc cur \<open>j = 0\<close> show ?thesis by simp
    qed
  next
    case (Suc k)
    then have "?df ! (?i - 1) = g ! k" using assms(2) by (simp add: nth_append)
    with g [of k] cur Suc assms(2) show ?thesis by simp
  qed
  have nxt: "(?i = length ?df - 1 \<or> Store (?df ! Suc ?i) \<noteq> Store (?df ! ?i)) = (j = length g - 1)"
  proof (cases "j = length g - 1")
    case True
    show ?thesis
    proof (cases B)
      case Nil
      with True assms(2) show ?thesis by simp
    next
      case (Cons x xs)
      then have "?df ! Suc ?i = B ! 0" using True assms(2) by (simp add: nth_append)
      with b [of 0] Cons cur True show ?thesis by simp
    qed
  next
    case False
    with assms(2) have k: "Suc j < length g" by simp
    then have "?df ! Suc ?i = g ! Suc j" by (simp add: nth_append)
    with g [OF k] cur False k show ?thesis by simp
  qed
  show ?thesis
    unfolding idx_mask_of_nth [OF i] using prev nxt by blast
qed

lemma length_carry_dates [simp]: "length (carry_dates field g) = length g"
  by (simp add: carry_dates_def carry_points_def)

lemma carry_dates_nth:
  "j < length g \<Longrightarrow>
   carry_dates field g ! j = (field (g ! j) \<noteq> 0 \<or> j = 0 \<or> j = length g - 1, Date (g ! j))"
  by (simp add: carry_dates_def carry_points_def)

lemma event_tmp_segment:
  assumes "segment s A g B" and "\<forall>r \<in> set g. Date r \<noteq> NaT"
  shows "take (length g) (drop (length A) (event_tmp field (A @ g @ B) (idx_mask_of (A @ g @ B))))
         = carry_tmp field g"
proof (rule nth_equalityI)
  from assms have ne: "A @ g @ B \<noteq> []" by (simp add: segment_def)
  have len: "length (event_tmp field (A @ g @ B) (idx_mask_of (A @ g @ B))) = length (A @ g @ B)"
    by (simp add: event_tmp_def length_idx_mask_of [OF ne])
  show "length (take (length g) (drop (length A) (event_tmp field (A @ g @ B) (idx_mask_of (A @ g @ B)))))
        = length (carry_tmp field g)"
    by (simp add: len carry_tmp_def)
  fix j assume "j < length (take (length g) (drop (length A) (event_tmp field (A @ g @ B) (idx_mask_of (A @ g @ B)))))"
  then have j: "j < length g" by simp
  have "event_tmp field (A @ g @ B) (idx_mask_of (A @ g @ B)) ! (length A + j)
        = (if field (g ! j) = 0 \<and> \<not> (j = 0 \<or> j = length g - 1) then None else Some (Date (g ! j)))"
    using j idx_mask_segment [OF assms(1) j] assms(2)
    by (simp add: event_tmp_def opt_date_def length_idx_mask_of [OF ne] nth_append)
  then show "take (length g) (drop (length A) (event_tmp field (A @ g @ B) (idx_mask_of (A @ g @ B)))) ! j
        = carry_tmp field g ! j"
    using j len by (auto simp: carry_tmp_def carry_dates_nth)
qed


lemma case_last_append:
  "ys \<noteq> [] \<Longrightarrow>
   (case xs @ ys of [] \<Rightarrow> None | zs \<Rightarrow> last zs) = (case ys of [] \<Rightarrow> None | zs \<Rightarrow> last zs)"
  by (simp add: list.case_eq_if)

lemma case_hd_append:
  "xs \<noteq> [] \<Longrightarrow>
   (case xs @ ys of [] \<Rightarrow> None | zs \<Rightarrow> hd zs) = (case xs of [] \<Rightarrow> None | zs \<Rightarrow> hd zs)"
  by (simp add: list.case_eq_if)

lemma case_last_map:
  "zs \<noteq> [] \<Longrightarrow> (case map f zs of [] \<Rightarrow> None | ys \<Rightarrow> last ys) = f (last zs)"
  by (simp add: list.case_eq_if last_map)

lemma case_hd_map:
  "zs \<noteq> [] \<Longrightarrow> (case map f zs of [] \<Rightarrow> None | ys \<Rightarrow> hd ys) = f (hd zs)"
  by (cases zs) simp_all

lemma ffill_segment:
  assumes "t \<noteq> []" and "hd t \<noteq> None" and "j < length t"
  shows "ffill (a @ t @ b) ! (length a + j) = ffill t ! j"
proof -
  have "hd t \<in> set (take (Suc j) t)"
    using assms(1) by (cases t) simp_all
  with assms(2) have ne: "filter (\<lambda>x. x \<noteq> None) (take (Suc j) t) \<noteq> []"
    by (auto simp: filter_empty_conv)
  have z: "Suc j - length t = 0" using assms(3) by simp
  have tk: "take (Suc (length a + j)) (a @ t @ b) = a @ take (Suc j) t"
    by (simp add: z)
  have f: "filter (\<lambda>x. x \<noteq> None) (take (Suc (length a + j)) (a @ t @ b))
             = filter (\<lambda>x. x \<noteq> None) a @ filter (\<lambda>x. x \<noteq> None) (take (Suc j) t)"
    unfolding tk by (rule filter_append)
  have "ffill (a @ t @ b) ! (length a + j)
        = (case filter (\<lambda>x. x \<noteq> None) (take (Suc (length a + j)) (a @ t @ b)) of
             [] \<Rightarrow> None | zs \<Rightarrow> last zs)"
    using assms(3) by (intro ffill_nth) simp
  also have "\<dots> = (case filter (\<lambda>x. x \<noteq> None) (take (Suc j) t) of [] \<Rightarrow> None | zs \<Rightarrow> last zs)"
    unfolding f by (rule case_last_append [OF ne])
  also have "\<dots> = ffill t ! j"
    using assms(3) by (rule ffill_nth [symmetric])
  finally show ?thesis .
qed

lemma bfill_segment:
  assumes "t \<noteq> []" and "last t \<noteq> None" and "j < length t"
  shows "bfill (a @ t @ b) ! (length a + j) = bfill t ! j"
proof -
  have d: "drop j t \<noteq> []" using assms(3) by simp
  have "last (drop j t) = last t" using assms(3) by simp
  with last_in_set [OF d] have "last t \<in> set (drop j t)" by simp
  with assms(2) have ne: "filter (\<lambda>x. x \<noteq> None) (drop j t) \<noteq> []"
    by (auto simp: filter_empty_conv)
  have "drop (length a + j) (a @ t @ b) = drop j t @ b"
    using assms(3) by simp
  then have f: "filter (\<lambda>x. x \<noteq> None) (drop (length a + j) (a @ t @ b))
             = filter (\<lambda>x. x \<noteq> None) (drop j t) @ filter (\<lambda>x. x \<noteq> None) b"
    by simp
  have "bfill (a @ t @ b) ! (length a + j)
        = (case filter (\<lambda>x. x \<noteq> None) (drop (length a + j) (a @ t @ b)) of
             [] \<Rightarrow> None | zs \<Rightarrow> hd zs)"
    using assms(3) by (intro bfill_nth) simp
  also have "\<dots> = (case filter (\<lambda>x. x \<noteq> None) (drop j t) of [] \<Rightarrow> None | zs \<Rightarrow> hd zs)"
    unfolding f by (rule case_hd_append [OF ne])
  also have "\<dots> = bfill t ! j"
    using assms(3) by (rule bfill_nth [symmetric])
  finally show ?thesis .
qed

lemma length_carry_tmp [simp]: "length (carry_tmp field g) = length g"
  by (simp add: carry_tmp_def)

lemma carry_tmp_nth:
  "j < length g \<Longrightarrow>
   carry_tmp field g ! j
   = (if field (g ! j) \<noteq> 0 \<or> j = 0 \<or> j = length g - 1 then Some (Date (g ! j)) else None)"
  by (simp add: carry_tmp_def carry_dates_nth)

lemma filter_carry_tmp:
  "filter (\<lambda>x. x \<noteq> None) (map (\<lambda>(c, d). if c then Some d else None) cds)
   = map (\<lambda>p. Some (snd p)) (filter fst cds)"
  by (induction cds) auto

lemma carry_tmp_hd: "g \<noteq> [] \<Longrightarrow> hd (carry_tmp field g) \<noteq> None"
proof -
  assume g: "g \<noteq> []"
  then have "carry_tmp field g \<noteq> []" by (simp add: carry_tmp_def carry_dates_def carry_points_def)
  then have "hd (carry_tmp field g) = carry_tmp field g ! 0"
    by (simp add: hd_conv_nth)
  then show ?thesis using g by (simp add: carry_tmp_nth)
qed

lemma carry_tmp_last: "g \<noteq> [] \<Longrightarrow> last (carry_tmp field g) \<noteq> None"
proof -
  assume g: "g \<noteq> []"
  then have "carry_tmp field g \<noteq> []" by (simp add: carry_tmp_def carry_dates_def carry_points_def)
  then have "last (carry_tmp field g) = carry_tmp field g ! (length g - 1)"
    by (simp add: last_conv_nth)
  then show ?thesis using g by (simp add: carry_tmp_nth)
qed

lemma ffill_carry_tmp:
  assumes "j < length g"
  shows "ffill (carry_tmp field g) ! j
         = Some (last (map snd (filter fst (take (Suc j) (carry_dates field g)))))"
proof -
  from assms have g: "g \<noteq> []" by auto
  let ?cds = "take (Suc j) (carry_dates field g)"
  have "?cds ! 0 \<in> set ?cds" using assms by (intro nth_mem) simp
  moreover have "fst (?cds ! 0)" using g by (simp add: carry_dates_nth)
  ultimately have ne: "filter fst ?cds \<noteq> []"
    by (auto simp: filter_empty_conv)
  have f: "filter (\<lambda>x. x \<noteq> None) (take (Suc j) (carry_tmp field g))
        = map (\<lambda>p. Some (snd p)) (filter fst ?cds)"
    unfolding carry_tmp_def take_map by (rule filter_carry_tmp)
  have "ffill (carry_tmp field g) ! j
        = (case filter (\<lambda>x. x \<noteq> None) (take (Suc j) (carry_tmp field g)) of
             [] \<Rightarrow> None | zs \<Rightarrow> last zs)"
    using assms by (intro ffill_nth) simp
  also have "\<dots> = Some (snd (last (filter fst ?cds)))"
    unfolding f by (rule case_last_map [OF ne])
  finally show ?thesis using ne by (simp add: last_map)
qed

lemma bfill_carry_tmp:
  assumes "j < length g"
  shows "bfill (carry_tmp field g) ! j
         = Some (hd (map snd (filter fst (drop j (carry_dates field g)))))"
proof -
  from assms have g: "g \<noteq> []" by auto
  let ?cds = "drop j (carry_dates field g)"
  have d: "?cds \<noteq> []" using assms by simp
  have "last ?cds = carry_dates field g ! (length g - 1)"
    using assms by (simp add: last_conv_nth)
  then have "fst (last ?cds)" using g by (simp add: carry_dates_nth)
  with last_in_set [OF d] have ne: "filter fst ?cds \<noteq> []"
    by (auto simp: filter_empty_conv)
  have f: "filter (\<lambda>x. x \<noteq> None) (drop j (carry_tmp field g))
        = map (\<lambda>p. Some (snd p)) (filter fst ?cds)"
    unfolding carry_tmp_def drop_map by (rule filter_carry_tmp)
  have "bfill (carry_tmp field g) ! j
        = (case filter (\<lambda>x. x \<noteq> None) (drop j (carry_tmp field g)) of
             [] \<Rightarrow> None | zs \<Rightarrow> hd zs)"
    using assms by (intro bfill_nth) simp
  also have "\<dots> = Some (snd (hd (filter fst ?cds)))"
    unfolding f by (rule case_hd_map [OF ne])
  finally show ?thesis using ne by (simp add: hd_map)
qed


lemma sub_opt_Some:
  assumes "sub_opt (opt_date x) (opt_date y) = Inr v"
    and "x \<noteq> NaT" and "y \<noteq> NaT" and "x - y \<noteq> NaT"
  shows "v = Some (x - y)"
  using assms by (auto simp: sub_opt_def opt_date_def sub_datetimes_def split: if_splits)

lemma opt_date_Some: "a \<noteq> NaT \<Longrightarrow> Some a = opt_date a"
  by (simp add: opt_date_def)

lemma proximity_Inr:
  assumes "proximity field df msk = Inr (aft, bef)" and "length msk = length df"
  shows "length aft = length df" and "length bef = length df"
    and "\<And>i a. i < length df \<Longrightarrow> ffill (event_tmp field df msk) ! i = Some a
          \<Longrightarrow> Date (df ! i) \<noteq> NaT \<Longrightarrow> a \<noteq> NaT \<Longrightarrow> Date (df ! i) - a \<noteq> NaT
          \<Longrightarrow> aft ! i = Some ((Date (df ! i) - a) div day_ns)"
    and "\<And>i b. i < length df \<Longrightarrow> bfill (event_tmp field df msk) ! i = Some b
          \<Longrightarrow> Date (df ! i) \<noteq> NaT \<Longrightarrow> b \<noteq> NaT \<Longrightarrow> b - Date (df ! i) \<noteq> NaT
          \<Longrightarrow> bef ! i = Some ((b - Date (df ! i)) div day_ns)"
proof -
  let ?tmp = "event_tmp field df msk"
  have lt: "length ?tmp = length df"
    using assms(2) by (simp add: event_tmp_def)
  from assms(1) obtain ad bd where
    a: "map2 (\<lambda>r a. sub_opt (opt_date (Date r)) a) df (ffill ?tmp) = map Inr ad"
    and b: "map2 (\<lambda>r b. sub_opt b (opt_date (Date r))) df (bfill ?tmp) = map Inr bd"
    and r: "aft = map td_days ad" "bef = map td_days bd"
    by (auto simp: proximity_def Let_def bind_err_Inr_iff collect_Inr_iff)
  note a' = map_eq_map_Inr [OF a]
  note b' = map_eq_map_Inr [OF b]
  have la: "length ad = length df" using a'(1) lt by simp
  have lb: "length bd = length df" using b'(1) lt by simp
  show "length aft = length df" "length bef = length df"
    using la lb r by simp_all
  show "aft ! i = Some ((Date (df ! i) - a) div day_ns)"
    if i: "i < length df" and f: "ffill ?tmp ! i = Some a"
      and n: "Date (df ! i) \<noteq> NaT" "a \<noteq> NaT" "Date (df ! i) - a \<noteq> NaT" for i a
  proof -
    have "i < length (zip df (ffill ?tmp))" using i lt by simp
    from a'(2) [OF this] have "sub_opt (opt_date (Date (df ! i))) (Some a) = Inr (ad ! i)"
      using i lt f by simp
    then have "sub_opt (opt_date (Date (df ! i))) (opt_date a) = Inr (ad ! i)"
      by (simp only: opt_date_Some [OF n(2)])
    from sub_opt_Some [OF this n] show ?thesis
      using i la by (simp add: r td_days_def)
  qed
  show "bef ! i = Some ((b - Date (df ! i)) div day_ns)"
    if i: "i < length df" and f: "bfill ?tmp ! i = Some b"
      and n: "Date (df ! i) \<noteq> NaT" "b \<noteq> NaT" "b - Date (df ! i) \<noteq> NaT" for i b
  proof -
    have "i < length (zip df (bfill ?tmp))" using i lt by simp
    from b'(2) [OF this] have "sub_opt (Some b) (opt_date (Date (df ! i))) = Inr (bd ! i)"
      using i lt f by simp
    then have "sub_opt (opt_date b) (opt_date (Date (df ! i))) = Inr (bd ! i)"
      by (simp only: opt_date_Some [OF n(2)])
    from sub_opt_Some [OF this n(2) n(1) n(3)] show ?thesis
      using i lb by (simp add: r td_days_def)
  qed
qed

lemma NaT_negative: "NaT < 0"
  by (simp add: NaT_def)

lemma carry_dates_snd:
  "map snd (carry_dates field g) = map Date g"
  by (simp add: carry_dates_def carry_points_def)

lemma last_carry_before:
  assumes j: "j < length g" and so: "sorted (map Date g)"
  shows "last (map snd (filter fst (take (Suc j) (carry_dates field g)))) \<in> Date ` set g"
    and "last (map snd (filter fst (take (Suc j) (carry_dates field g)))) \<le> Date (g ! j)"
proof -
  let ?c = "take (Suc j) (carry_dates field g)"
  let ?a = "last (map snd (filter fst ?c))"
  have "carry_dates field g ! 0 \<in> set ?c"
    using j by (auto simp: in_set_conv_nth intro!: exI [of _ 0])
  moreover have "fst (carry_dates field g ! 0)"
  proof -
    from j have "0 < length g" by (cases g) simp_all
    then show ?thesis by (simp add: carry_dates_nth)
  qed
  ultimately have ne: "filter fst ?c \<noteq> []"
    by (auto simp: filter_empty_conv)
  then have "?a \<in> set (map snd (filter fst ?c))" by (intro last_in_set) simp
  then have "?a \<in> set (map snd ?c)" by auto
  then have m: "?a \<in> set (take (Suc j) (map Date g))"
    by (simp only: take_map [symmetric] carry_dates_snd)
  then show "?a \<in> Date ` set g"
    using set_take_subset [of "Suc j" "map Date g"] by auto
  from m obtain i where i: "i < Suc j" "i < length g" and a: "?a = map Date g ! i"
    by (auto simp: in_set_conv_nth)
  from i j have "map Date g ! i \<le> map Date g ! j"
    by (intro sorted_nth_mono [OF so]) simp_all
  with a j show "?a \<le> Date (g ! j)" by simp
qed

lemma first_carry_after:
  assumes j: "j < length g" and so: "sorted (map Date g)"
  shows "hd (map snd (filter fst (drop j (carry_dates field g)))) \<in> Date ` set g"
    and "Date (g ! j) \<le> hd (map snd (filter fst (drop j (carry_dates field g))))"
proof -
  let ?c = "drop j (carry_dates field g)"
  let ?b = "hd (map snd (filter fst ?c))"
  have "carry_dates field g ! (length g - 1) \<in> set ?c"
    using j by (auto simp: in_set_conv_nth intro!: exI [of _ "length g - 1 - j"])
  moreover have "fst (carry_dates field g ! (length g - 1))"
    using j by (simp add: carry_dates_nth)
  ultimately have ne: "filter fst ?c \<noteq> []"
    by (auto simp: filter_empty_conv)
  then have "?b \<in> set (map snd (filter fst ?c))" by (intro hd_in_set) simp
  then have "?b \<in> set (map snd ?c)" by auto
  then have m: "?b \<in> set (drop j (map Date g))"
    by (simp only: drop_map [symmetric] carry_dates_snd)
  then show "?b \<in> Date ` set g"
    using set_drop_subset [of j "map Date g"] by auto
  from m obtain i where i: "i < length g - j" and b: "?b = map Date g ! (j + i)"
    by (auto simp: in_set_conv_nth)
  from i j have "map Date g ! j \<le> map Date g ! (j + i)"
    by (intro sorted_nth_mono [OF so]) simp_all
  with b j show "Date (g ! j) \<le> ?b" by simp
qed

lemma of_store_segment:
  assumes "segment s A g B" and "length col = length (A @ g @ B)"
  shows "of_store s (A @ g @ B) col = take (length g) (drop (length A) col)"
proof -
  let ?cA = "take (length A) col"
  let ?cg = "take (length g) (drop (length A) col)"
  let ?cB = "drop (length g) (drop (length A) col)"
  have c: "col = ?cA @ ?cg @ ?cB" by (metis append_take_drop_id)
  have lA: "length ?cA = length A" and lg: "length ?cg = length g"
    using assms(2) by simp_all
  have z: "zip (A @ g @ B) col = zip A ?cA @ zip g ?cg @ zip B ?cB"
    by (subst c) (simp only: zip_append lA lg)
  from assms(1) have sA: "\<forall>r \<in> set A. Store r \<noteq> s" and sg: "\<forall>r \<in> set g. Store r = s"
    and sB: "\<forall>r \<in> set B. Store r \<noteq> s"
    by (simp_all add: segment_def list_all_iff)
  have fA: "filter (\<lambda>(r, v). Store r = s) (zip A ?cA) = []"
    using sA by (auto simp: filter_empty_conv dest: set_zip_leftD)
  have fB: "filter (\<lambda>(r, v). Store r = s) (zip B ?cB) = []"
    using sB by (auto simp: filter_empty_conv dest: set_zip_leftD)
  have fg: "filter (\<lambda>(r, v). Store r = s) (zip g ?cg) = zip g ?cg"
    using sg by (auto simp: filter_id_conv dest: set_zip_leftD)
  show ?thesis
    unfolding of_store_def z using fA fB fg lg by simp
qed

lemma of_store_absent:
  "filter (\<lambda>r. Store r = s) df = [] \<Longrightarrow> of_store s df col = []"
  by (auto simp: of_store_def filter_empty_conv dest: set_zip_leftD)

lemma segment_of_sorted:
  assumes "sorted (map Store df)" and "filter (\<lambda>r. Store r = s) df \<noteq> []"
  shows "segment s (filter (\<lambda>r. Store r < s) df) (filter (\<lambda>r. Store r = s) df)
           (filter (\<lambda>r. s < Store r) df)"
  using assms(2) by (auto simp: segment_def list_all_iff)

lemma event_columns_of_store:
  assumes seg: "segment s A g B"
    and p: "proximity field (A @ g @ B) (idx_mask_of (A @ g @ B)) = Inr (aft, bef)"
    and dated: "\<forall>r \<in> set g. Date r \<noteq> NaT" and so: "sorted (map Date g)"
  shows "of_store s (A @ g @ B) aft = map (\<lambda>i. Some (after_event field g i)) [0..<length g]"
    and "of_store s (A @ g @ B) bef = map (\<lambda>i. Some (before_event field g i)) [0..<length g]"
proof -
  let ?df = "A @ g @ B"
  let ?tmp = "event_tmp field ?df (idx_mask_of ?df)"
  from seg have g: "g \<noteq> []" by (simp add: segment_def)
  then have ne: "?df \<noteq> []" by simp
  have lm: "length (idx_mask_of ?df) = length ?df"
    by (rule length_idx_mask_of [OF ne])
  note pr = proximity_Inr [OF p lm]
  have lt: "length ?tmp = length ?df"
    using lm by (simp add: event_tmp_def)
  let ?tA = "take (length A) ?tmp"
  let ?tB = "drop (length g) (drop (length A) ?tmp)"
  have t: "?tmp = ?tA @ carry_tmp field g @ ?tB"
    using event_tmp_segment [OF seg dated, of field] append_take_drop_id by metis
  have ltA: "length ?tA = length A" using lt by simp
  have cne: "carry_tmp field g \<noteq> []"
    using g by (simp add: carry_tmp_def carry_dates_def carry_points_def)
  have chd: "hd (carry_tmp field g) \<noteq> None" by (rule carry_tmp_hd [OF g])
  have cla: "last (carry_tmp field g) \<noteq> None" by (rule carry_tmp_last [OF g])
  have ff: "ffill ?tmp ! (length A + j) = Some (last (map snd (filter fst (take (Suc j) (carry_dates field g)))))"
    if j: "j < length g" for j
  proof -
    have "ffill (?tA @ carry_tmp field g @ ?tB) ! (length ?tA + j) = ffill (carry_tmp field g) ! j"
      by (rule ffill_segment [OF cne chd]) (use j in simp)
    then show ?thesis
      using t ltA ffill_carry_tmp [OF j, of field] by simp
  qed
  have bf: "bfill ?tmp ! (length A + j) = Some (hd (map snd (filter fst (drop j (carry_dates field g)))))"
    if j: "j < length g" for j
  proof -
    have "bfill (?tA @ carry_tmp field g @ ?tB) ! (length ?tA + j) = bfill (carry_tmp field g) ! j"
      by (rule bfill_segment [OF cne cla]) (use j in simp)
    then show ?thesis
      using t ltA bfill_carry_tmp [OF j, of field] by simp
  qed
  have row: "?df ! (length A + j) = g ! j" if "j < length g" for j
    using that by (simp add: nth_append)
  have present: "Date (?df ! (length A + j)) \<noteq> NaT" if "j < length g" for j
    using that dated row [OF that] by simp
  have aft_ok: "last (map snd (filter fst (take (Suc j) (carry_dates field g)))) \<noteq> NaT"
      "Date (?df ! (length A + j))
         - last (map snd (filter fst (take (Suc j) (carry_dates field g)))) \<noteq> NaT"
    if j: "j < length g" for j
    using last_carry_before [OF j so, of field] dated row [OF j] NaT_negative by auto
  have bef_ok: "hd (map snd (filter fst (drop j (carry_dates field g)))) \<noteq> NaT"
      "hd (map snd (filter fst (drop j (carry_dates field g))))
         - Date (?df ! (length A + j)) \<noteq> NaT"
    if j: "j < length g" for j
    using first_carry_after [OF j so, of field] dated row [OF j] NaT_negative by auto
  show "of_store s ?df aft = map (\<lambda>i. Some (after_event field g i)) [0..<length g]"
  proof (rule nth_equalityI)
    show "length (of_store s ?df aft) = length (map (\<lambda>i. Some (after_event field g i)) [0..<length g])"
      using pr(1) by (simp add: of_store_segment [OF seg])
    fix j assume "j < length (of_store s ?df aft)"
    then have j: "j < length g"
      using pr(1) by (simp add: of_store_segment [OF seg])
    have "aft ! (length A + j) = Some ((Date (?df ! (length A + j))
            - last (map snd (filter fst (take (Suc j) (carry_dates field g))))) div day_ns)"
      by (rule pr(3)) (use j ff present aft_ok in simp_all)
    then show "of_store s ?df aft ! j = map (\<lambda>i. Some (after_event field g i)) [0..<length g] ! j"
      using j pr(1) row [OF j] by (simp add: of_store_segment [OF seg] after_event_def)
  qed
  show "of_store s ?df bef = map (\<lambda>i. Some (before_event field g i)) [0..<length g]"
  proof (rule nth_equalityI)
    show "length (of_store s ?df bef) = length (map (\<lambda>i. Some (before_event field g i)) [0..<length g])"
      using pr(2) by (simp add: of_store_segment [OF seg])
    fix j assume "j < length (of_store s ?df bef)"
    then have j: "j < length g"
      using pr(2) by (simp add: of_store_segment [OF seg])
    have "bef ! (length A + j) = Some ((hd (map snd (filter fst (drop j (carry_dates field g))))
            - Date (?df ! (length A + j))) div day_ns)"
      by (rule pr(4)) (use j bf present bef_ok in simp_all)
    then show "of_store s ?df bef ! j = map (\<lambda>i. Some (before_event field g i)) [0..<length g] ! j"
      using j pr(2) row [OF j] by (simp add: of_store_segment [OF seg] before_event_def)
  qed
qed


lemma sorted_dates_of_store:
  assumes "\<forall>r \<in> set df. Store r = s \<longrightarrow> Date r \<noteq> NaT"
  shows "sorted (map Date (filter (\<lambda>r. Store r = s)
           (sort_key (\<lambda>r. (Store r, Date r = NaT, Date r)) df)))"
proof -
  let ?key = "\<lambda>r. (Store r, Date r = NaT, Date r)"
  let ?sdf = "sort_key ?key df"
  have "sorted (map ?key ?sdf)"
    by (rule sorted_sort_key)
  then have "sorted_wrt (\<lambda>a b. ?key a \<le> ?key b) ?sdf"
    by (simp add: sorted_map)
  then have "sorted_wrt (\<lambda>a b. ?key a \<le> ?key b) (filter (\<lambda>r. Store r = s) ?sdf)"
    by (rule sorted_wrt_filter)
  then have "sorted_wrt (\<lambda>a b. Date a \<le> Date b) (filter (\<lambda>r. Store r = s) ?sdf)"
    by (rule sorted_wrt_mono_rel [rotated]) (use assms in \<open>auto simp: less_eq_prod_def\<close>)
  then show ?thesis by (simp add: sorted_map)
qed

lemma cell21_Inr:
  assumes "cell21 df = Inr (sdf, cols)"
  shows "sdf = sort_key (\<lambda>r. (Store r, Date r = NaT, Date r)) df" and "sdf \<noteq> []"
    and "length cols = length event_fields"
    and "\<And>k. k < length event_fields \<Longrightarrow>
           proximity (event_fields ! k) sdf (idx_mask_of sdf) = Inr (cols ! k)"
proof -
  let ?s = "sort_key (\<lambda>r. (Store r, Date r = NaT, Date r)) df"
  from assms have l: "length (last_indices ?s) = length (first_indices ?s)"
    and c: "map (\<lambda>field. proximity field ?s (idx_mask_of ?s)) event_fields = map Inr cols"
    and s: "sdf = ?s"
    by (auto simp: cell21_def Let_def bind_err_Inr_iff collect_Inr_iff split: if_splits)
  show "sdf = ?s" by (rule s)
  show "sdf \<noteq> []"
  proof
    assume "sdf = []"
    with s have "?s = []" by simp
    then have "length (last_indices ?s) = 1" "length (first_indices ?s) = 0"
      by (simp_all add: last_indices_def first_indices_def)
    with l show False by simp
  qed
  show "length cols = length event_fields"
    by (rule map_eq_map_Inr(1) [OF c])
  show "proximity (event_fields ! k) sdf (idx_mask_of sdf) = Inr (cols ! k)"
    if "k < length event_fields" for k
    using map_eq_map_Inr(2) [OF c that] s by simp
qed

text \<open>
  Claim C5, amended. Cell 21 sorts the union table by store and date. For every event
  field and every store all of whose rows have a date, reading the two new columns on
  the rows of that store, which stand in date order (strictly so when the store has one
  row for each date): a row is a carry point iff its event flag is set or it is the
  first or the last row of the store (\<open>carry_points\<close>); \<open>After\<close> is the number of whole
  days from the nearest carry point at or before the row to the row, \<open>Before\<close> the
  number of whole days from the row to the nearest carry point at or after it
  (\<open>after_event\<close>, \<open>before_event\<close>), and neither is missing. No value is carried
  into such a store from another.
\<close>

theorem event_proximity:
  assumes "cell21 df = Inr (sdf, cols)" and "k < length event_fields"
    and "\<forall>r \<in> set df. Store r = s \<longrightarrow> Date r \<noteq> NaT"
  shows "sdf = sort_key (\<lambda>r. (Store r, Date r = NaT, Date r)) df
       \<and> length cols = length event_fields
       \<and> sorted (map Date (filter (\<lambda>r. Store r = s) sdf))
       \<and> (distinct (map Date (filter (\<lambda>r. Store r = s) sdf))
            \<longrightarrow> sorted_wrt (<) (map Date (filter (\<lambda>r. Store r = s) sdf)))
       \<and> of_store s sdf (fst (cols ! k))
           = map (\<lambda>i. Some (after_event (event_fields ! k) (filter (\<lambda>r. Store r = s) sdf) i))
               [0..<length (filter (\<lambda>r. Store r = s) sdf)]
       \<and> of_store s sdf (snd (cols ! k))
           = map (\<lambda>i. Some (before_event (event_fields ! k) (filter (\<lambda>r. Store r = s) sdf) i))
               [0..<length (filter (\<lambda>r. Store r = s) sdf)]"
proof -
  note c = cell21_Inr [OF assms(1)]
  let ?field = "event_fields ! k"
  let ?A = "filter (\<lambda>r. Store r < s) sdf"
  let ?g = "filter (\<lambda>r. Store r = s) sdf"
  let ?B = "filter (\<lambda>r. s < Store r) sdf"
  obtain aft bef where ab: "cols ! k = (aft, bef)" by (cases "cols ! k")
  have p: "proximity ?field sdf (idx_mask_of sdf) = Inr (aft, bef)"
    using c(4) [OF assms(2)] ab by simp
  have so: "sorted (map Store sdf)"
    unfolding c(1) by (rule sorted_store_of_sort)
  have sd: "sorted (map Date ?g)"
    unfolding c(1) by (rule sorted_dates_of_store [OF assms(3)])
  have dated: "\<forall>r \<in> set ?g. Date r \<noteq> NaT"
    using assms(3) unfolding c(1) by simp
  have strict: "distinct (map Date ?g) \<longrightarrow> sorted_wrt (<) (map Date ?g)"
    using sd by (simp add: strict_sorted_iff)
  have per_store: "of_store s sdf aft
                = map (\<lambda>i. Some (after_event ?field ?g i)) [0..<length ?g]
            \<and> of_store s sdf bef
                = map (\<lambda>i. Some (before_event ?field ?g i)) [0..<length ?g]"
  proof (cases "?g = []")
    case True
    then show ?thesis by (simp add: of_store_absent)
  next
    case False
    have seg: "segment s ?A ?g ?B"
      by (rule segment_of_sorted [OF so False])
    have d: "sdf = ?A @ ?g @ ?B"
      by (rule sorted_store_split [OF so])
    have p': "proximity ?field (?A @ ?g @ ?B) (idx_mask_of (?A @ ?g @ ?B)) = Inr (aft, bef)"
      using p d by simp
    from event_columns_of_store [OF seg p' dated sd] show ?thesis
      using d by simp
  qed
  from per_store sd strict c(1) c(3) ab show ?thesis by simp
qed

text \<open>
  The example of the claim: store 1 on three consecutive days with the event on the
  second only has \<open>After = [0, 0, 0]\<close> and \<open>Before = [0, 0, 0]\<close>, every day being a
  carry point.
\<close>

theorem event_proximity_witness:
  "cell21 three_days
     = Inr (sort_key (\<lambda>r. (Store r, Date r = NaT, Date r)) three_days,
         [([Some 0, Some 0, Some 0, Some 0, Some 1, Some 2, Some 3, Some 0],
           [Some 0, Some 0, Some 0, Some 0, Some 3, Some 2, Some 1, Some 0]),
          ([Some 0, Some 1, Some 0, Some 0, Some 1, Some 2, Some 3, Some 0],
           [Some 0, Some 1, Some 0, Some 0, Some 3, Some 2, Some 1, Some 0]),
          ([Some 0, Some 1, Some 0, Some 0, Some 1, Some 2, Some 3, Some 0],
           [Some 0, Some 1, Some 0, Some 0, Some 3, Some 2, Some 1, Some 0])])
   \<and> (0 :: nat) < length event_fields
   \<and> NaT \<notin> set (map Date three_days)
   \<and> distinct (map Date (filter (\<lambda>r. Store r = 1)
        (sort_key (\<lambda>r. (Store r, Date r = NaT, Date r)) three_days)))
   \<and> sorted_wrt (<) (map Date (filter (\<lambda>r. Store r = 1)
        (sort_key (\<lambda>r. (Store r, Date r = NaT, Date r)) three_days)))
   \<and> map (\<lambda>i. Some (after_event (event_fields ! 0)
          (filter (\<lambda>r. Store r = 1) (sort_key (\<lambda>r. (Store r, Date r = NaT, Date r)) three_days)) i))
        [0..<length (filter (\<lambda>r. Store r = 1) (sort_key (\<lambda>r. (Store r, Date r = NaT, Date r)) three_days))]
     = [Some 0, Some 0, Some 0]
   \<and> map (\<lambda>i. Some (before_event (event_fields ! 0)
          (filter (\<lambda>r. Store r = 1) (sort_key (\<lambda>r. (Store r, Date r = NaT, Date r)) three_days)) i))
        [0..<length (filter (\<lambda>r. Store r = 1) (sort_key (\<lambda>r. (Store r, Date r = NaT, Date r)) three_days))]
     = [Some 0, Some 0, Some 0]"
proof -
  let ?sdf = "sort_key (\<lambda>r. (Store r, Date r = NaT, Date r)) three_days"
  have h: "cell21 three_days
     = Inr (?sdf,
         [([Some 0, Some 0, Some 0, Some 0, Some 1, Some 2, Some 3, Some 0],
           [Some 0, Some 0, Some 0, Some 0, Some 3, Some 2, Some 1, Some 0]),
          ([Some 0, Some 1, Some 0, Some 0, Some 1, Some 2, Some 3, Some 0],
           [Some 0, Some 1, Some 0, Some 0, Some 3, Some 2, Some 1, Some 0]),
          ([Some 0, Some 1, Some 0, Some 0, Some 1, Some 2, Some 3, Some 0],
           [Some 0, Some 1, Some 0, Some 0, Some 3, Some 2, Some 1, Some 0])])"
    by code_simp
  have k: "(0 :: nat) < length event_fields" by (simp add: event_fields_def)
  have n: "NaT \<notin> set (map Date three_days)" by code_simp
  then have n': "\<forall>r \<in> set three_days. Store r = 1 \<longrightarrow> Date r \<noteq> NaT" by force
  have d: "distinct (map Date (filter (\<lambda>r. Store r = 1) ?sdf))" by code_simp
  have a: "of_store 1 ?sdf [Some 0, Some 0, Some 0, Some 0, Some 1, Some 2, Some 3, Some (0::int)]
           = [Some 0, Some 0, Some 0]"
    by code_simp
  have b: "of_store 1 ?sdf [Some 0, Some 0, Some 0, Some 0, Some 3, Some 2, Some 1, Some (0::int)]
           = [Some 0, Some 0, Some 0]"
    by code_simp
  note e = event_proximity [OF h k n']
  from e d have s: "sorted_wrt (<) (map Date (filter (\<lambda>r. Store r = 1) ?sdf))"
    by blast
  from e have "of_store 1 ?sdf [Some 0, Some 0, Some 0, Some 0, Some 1, Some 2, Some 3, Some (0::int)]
      = map (\<lambda>i. Some (after_event (event_fields ! 0) (filter (\<lambda>r. Store r = 1) ?sdf) i))
          [0..<length (filter (\<lambda>r. Store r = 1) ?sdf)]"
    by simp
  then have A: "map (\<lambda>i. Some (after_event (event_fields ! 0) (filter (\<lambda>r. Store r = 1) ?sdf) i))
          [0..<length (filter (\<lambda>r. Store r = 1) ?sdf)] = [Some 0, Some 0, Some 0]"
    using a by (rule trans [OF sym])
  from e have "of_store 1 ?sdf [Some 0, Some 0, Some 0, Some 0, Some 3, Some 2, Some 1, Some (0::int)]
      = map (\<lambda>i. Some (before_event (event_fields ! 0) (filter (\<lambda>r. Store r = 1) ?sdf) i))
          [0..<length (filter (\<lambda>r. Store r = 1) ?sdf)]"
    by simp
  then have B: "map (\<lambda>i. Some (before_event (event_fields ! 0) (filter (\<lambda>r. Store r = 1) ?sdf) i))
          [0..<length (filter (\<lambda>r. Store r = 1) ?sdf)] = [Some 0, Some 0, Some 0]"
    using b by (rule trans [OF sym])
  from h k n d s A B show ?thesis by (intro conjI)
qed

text \<open>
  Counterexample to claim C5 as stated: store 1 has a row without a date, which the sort
  puts last in the store; the store's second row, of day 11 and no carry point, gets
  \<open>Before = 7\<close>, the distance to the row of store 2 on day 18, and the row without
  a date gets no value at all.
\<close>

theorem event_proximity_counterexample:
  "map_sum id snd (cell21 undated_day)
     = Inr [([Some 0, Some 1, None, Some 0], [Some 0, Some 7, None, Some 0]),
            ([Some 0, Some 1, None, Some 0], [Some 0, Some 7, None, Some 0]),
            ([Some 0, Some 1, None, Some 0], [Some 0, Some 7, None, Some 0])]
   \<and> map_sum id (map Store \<circ> fst) (cell21 undated_day) = Inr [1, 1, 1, 2]
   \<and> map_sum id (map Date \<circ> fst) (cell21 undated_day)
       = Inr [10 * day_ns, 11 * day_ns, NaT, 18 * day_ns]
   \<and> map (\<lambda>i. Some (before_event SchoolHoliday (filter (\<lambda>r. Store r = 1)
            (sort_key (\<lambda>r. (Store r, Date r = NaT, Date r)) undated_day)) i)) [0..<3]
       \<noteq> [Some 0, Some 7, None]"
  by code_simp

section \<open>Rolling sums\<close>





lemma length_rolling_sum [simp]: "length (rolling_sum w m xs) = length xs"
  by (simp add: rolling_sum_def)









end
